theory Spec2Isabelle
  imports Complex_Main
begin

section \<open>The election-results scraper (\<^verbatim>\<open>scraper.py\<close>)\<close>

text \<open>
  The program walks a tree of JSON documents served over HTTP and stores every document
  in a local directory tree. This theory embeds its two functions,
  \<^verbatim>\<open>load_or_download\<close> and \<^verbatim>\<open>download_data\<close>, and the entry point
  \<^verbatim>\<open>main\<close>, as HOL functions over an explicit state: the local files and a log of
  the effects (network requests, sleeps, file reads and writes) in the order they happen.
\<close>

subsection \<open>Documents\<close>

text \<open>
  The JSON values the program looks into, typed by the keys it reads:
  a node descriptor (\<^verbatim>\<open>can\<close>, \<^verbatim>\<open>srs\<close>, \<^verbatim>\<open>pps\<close>), an election return
  (\<^verbatim>\<open>rs\<close>, each row with \<^verbatim>\<open>cc\<close>), and any other document (contest documents
  and certificates of canvass are never looked into). The values of \<^verbatim>\<open>srs\<close> are kept
  in the order of the JSON object, which is the order \<^verbatim>\<open>.values()\<close> iterates in.
  The key \<^verbatim>\<open>url\<close> occurs in child references and in voting-board references; the
  selectors are \<open>child_url\<close> and \<open>vb_url\<close>.
\<close>

datatype child = Child (child_rn: string) (child_url: string)

datatype vb = VB (vb_url: string)

datatype precinct = Precinct (ppcc: string) (vbs: "vb list")

datatype row = Row (cc: string)

datatype json =
    NodeInfo (can: string) (srs: "child list") (pps: "precinct list")
  | Results (rs: "row list")
  | Document string

text \<open>
  The text of a file or of an HTTP response body: either it parses as JSON
  (and \<^verbatim>\<open>json.dump\<close> followed by \<^verbatim>\<open>json.load\<close> gives the value back), or it does not.
\<close>

datatype content = Json json | NotJson

text \<open>
  What \<^verbatim>\<open>sess.get(url)\<close> does: it returns a response with a body, or raises one of
  the exceptions of \<^verbatim>\<open>requests\<close> for a failed connection.
\<close>

datatype response = Response content | ConnectionFailed

text \<open>
  The session stands for the upstream service. Its answer may change over time: the
  first argument is the number of requests issued before this one.
\<close>

type_synonym session = "nat \<Rightarrow> string \<Rightarrow> response"

subsection \<open>Errors\<close>

text \<open>
  The exceptions of the program. \<open>ValueError\<close> is the one raised in line 33
  (\<^verbatim>\<open>raise ValueError('Results not available.')\<close>); \<open>JSONDecodeError\<close> is the one
  \<^verbatim>\<open>json.load\<close> raises in line 24 on a file that does not parse. In Python
  \<^verbatim>\<open>json.JSONDecodeError\<close> is a subclass of \<^verbatim>\<open>ValueError\<close>, so the handlers
  \<^verbatim>\<open>except ValueError\<close> of \<^verbatim>\<open>download_data\<close> catch both; \<open>is_ValueError\<close> is that test.
  \<open>NegativeSleep\<close> is the \<^verbatim>\<open>ValueError\<close> that \<^verbatim>\<open>time.sleep\<close> raises in line 30 when
  \<open>download_delay\<close> is negative; the handlers catch it as well.
  \<open>KeyError\<close> stands for a document that lacks the key the program reads.
\<close>

datatype error =
    ValueError | JSONDecodeError | NegativeSleep | RequestException | KeyError | AssertionError

fun is_ValueError :: "error \<Rightarrow> bool" where
  "is_ValueError ValueError = True"
| "is_ValueError JSONDecodeError = True"
| "is_ValueError NegativeSleep = True"
| "is_ValueError RequestException = False"
| "is_ValueError KeyError = False"
| "is_ValueError AssertionError = False"

subsection \<open>State: the local files and the log of effects\<close>

text \<open>
  Storage is a map from path to file text; a path is the string the program passes to
  \<^verbatim>\<open>os.path.exists\<close> and \<^verbatim>\<open>open\<close>. Directories are implicit: \<^verbatim>\<open>os.makedirs\<close> and
  \<^verbatim>\<open>open(file_path, 'w')\<close> are taken to succeed, and every path that exists is taken
  to be a regular file. Storage in which a path of the program names a directory, or
  lies below a regular file, is outside the model.

  The log records the effects in order: \<open>Fetch file_path url\<close> is the request
  \<^verbatim>\<open>sess.get(url)\<close>, issued for the resource stored under \<open>file_path\<close> (the program's
  own log line 27 names both); \<open>Sleep t\<close> is \<^verbatim>\<open>time.sleep(t)\<close>; \<open>Load p\<close> is the
  read of the file \<open>p\<close>; \<open>Write p text\<close> creates or overwrites the file \<open>p\<close>.
\<close>

datatype event =
    Fetch string string
  | Sleep real
  | Load string
  | Write string content

record state =
  fs :: "string \<rightharpoonup> content"
  log :: "event list"

fun is_Fetch :: "event \<Rightarrow> bool" where
  "is_Fetch (Fetch p u) = True"
| "is_Fetch (Sleep t) = False"
| "is_Fetch (Load p) = False"
| "is_Fetch (Write p c) = False"

definition requests_made :: "event list \<Rightarrow> nat" where
  "requests_made l = length (filter is_Fetch l)"

definition emit :: "event \<Rightarrow> state \<Rightarrow> state" where
  "emit e s = s\<lparr>log := log s @ [e]\<rparr>"

subsection \<open>Paths and URLs\<close>

definition BASE_URL :: string where
  "BASE_URL = ''https://2022electionresults.comelec.gov.ph/data''"

definition BASE_DIR :: string where
  "BASE_DIR = ''data''"

definition RETRY_WAIT :: real where
  "RETRY_WAIT = 1"

text \<open>\<^verbatim>\<open>urljoin = lambda *args: '/'.join(args)\<close>\<close>

fun urljoin :: "string list \<Rightarrow> string" where
  "urljoin [] = []"
| "urljoin [a] = a"
| "urljoin (a # b # bs) = a @ ''/'' @ urljoin (b # bs)"

text \<open>
  \<^verbatim>\<open>os.path.join\<close> of \<^verbatim>\<open>posixpath\<close>: a component that starts with the separator
  replaces what came before; otherwise it is appended, after a separator unless the path
  so far is empty or ends with one.
\<close>

definition join_step :: "string \<Rightarrow> string \<Rightarrow> string" where
  "join_step path b =
     (if take 1 b = ''/'' then b
      else if path = [] \<or> last path = CHR ''/'' then path @ b
      else path @ ''/'' @ b)"

definition path_join :: "string \<Rightarrow> string list \<Rightarrow> string" where
  "path_join a p = foldl join_step a p"

text \<open>\<^verbatim>\<open>str.replace\<close> with one-character arguments.\<close>

definition replace :: "char \<Rightarrow> char \<Rightarrow> string \<Rightarrow> string" where
  "replace old new str = map (\<lambda>c. if c = old then new else c) str"

subsection \<open>\<^verbatim>\<open>load_or_download\<close> (lines 18 to 39)\<close>

text \<open>
  The file is looked up under \<open>file_path\<close> as given (line 21); it is written under
  \<open>file_path\<close> with every \<^verbatim>\<open>*\<close> replaced by \<^verbatim>\<open>_\<close> (lines 34 to 38).
  \<^verbatim>\<open>time.sleep(download_delay)\<close> (line 30) follows \<^verbatim>\<open>.json()\<close> inside the
  \<^verbatim>\<open>try\<close> block, so it is skipped when \<^verbatim>\<open>.json()\<close> raises. For a negative
  \<open>download_delay\<close> it raises a \<^verbatim>\<open>ValueError\<close> itself, which line 31 does not catch:
  the call ends there, after the request and before any write.
\<close>

definition load_or_download ::
  "session \<Rightarrow> string \<Rightarrow> string \<Rightarrow> real \<Rightarrow> state \<Rightarrow> (error + json) \<times> state" where
  "load_or_download sess file_path url download_delay s =
     (case fs s file_path of
        Some text \<Rightarrow>
          (case text of
             Json data \<Rightarrow> (Inr data, emit (Load file_path) s)
           | NotJson \<Rightarrow> (Inl JSONDecodeError, emit (Load file_path) s))
      | None \<Rightarrow>
          (case sess (requests_made (log s)) url of
             ConnectionFailed \<Rightarrow> (Inl RequestException, emit (Fetch file_path url) s)
           | Response NotJson \<Rightarrow> (Inl ValueError, emit (Fetch file_path url) s)
           | Response (Json data) \<Rightarrow>
               if download_delay < 0
               then (Inl NegativeSleep, emit (Fetch file_path url) s)
               else
                 (let s1 = emit (Sleep download_delay) (emit (Fetch file_path url) s);
                      file_path' = replace CHR ''*'' CHR ''_'' file_path
                  in (Inr data,
                      emit (Write file_path' (Json data))
                        (s1\<lparr>fs := (fs s1)(file_path' \<mapsto> Json data)\<rparr>)))))"

subsection \<open>\<^verbatim>\<open>download_data\<close> (lines 41 to 118)\<close>

text \<open>
  The two \<^verbatim>\<open>while True\<close> loops (lines 59 to 66 and 95 to 104) are the same loop:
  call \<^verbatim>\<open>load_or_download\<close>; leave the loop with its value; on an exception that
  \<^verbatim>\<open>except ValueError\<close> catches, sleep \<open>RETRY_WAIT\<close> and go round again; any other
  exception leaves the function. The loop has no bound, so the model takes fuel: \<open>None\<close>
  is a loop (or recursion) that has not returned within the fuel given.
\<close>

fun load_retrying ::
  "nat \<Rightarrow> session \<Rightarrow> string \<Rightarrow> string \<Rightarrow> real \<Rightarrow> state \<Rightarrow> (error + json) option \<times> state" where
  "load_retrying 0 sess file_path url download_delay s = (None, s)"
| "load_retrying (Suc n) sess file_path url download_delay s =
     (case load_or_download sess file_path url download_delay s of
        (Inr data, s') \<Rightarrow> (Some (Inr data), s')
      | (Inl e, s') \<Rightarrow>
          if is_ValueError e
          then load_retrying n sess file_path url download_delay (emit (Sleep RETRY_WAIT) s')
          else (Some (Inl e), s'))"

text \<open>A \<^verbatim>\<open>for\<close> loop whose body may raise: the first exception ends the loop.\<close>

fun for_each ::
  "('a \<Rightarrow> state \<Rightarrow> (error + unit) option \<times> state) \<Rightarrow> 'a list \<Rightarrow> state
     \<Rightarrow> (error + unit) option \<times> state" where
  "for_each body [] s = (Some (Inr ()), s)"
| "for_each body (x # xs) s =
     (case body x s of
        (Some (Inr u), s') \<Rightarrow> for_each body xs s'
      | (Some (Inl e), s') \<Rightarrow> (Some (Inl e), s')
      | (None, s') \<Rightarrow> (None, s'))"

text \<open>
  The body of the loop over the contests of one election return (lines 91 to 104):
  \<open>contest_path\<close> and \<open>contest_url\<close> are the values of lines 91 to 94.
\<close>

definition contest_path :: "string \<Rightarrow> string" where
  "contest_path contest = path_join BASE_DIR [''contests'', contest @ ''.json'']"

definition contest_url :: "string \<Rightarrow> string" where
  "contest_url contest = urljoin [BASE_URL, ''contests'', contest @ ''.json'']"

definition download_contest ::
  "nat \<Rightarrow> session \<Rightarrow> real \<Rightarrow> string \<Rightarrow> state \<Rightarrow> (error + unit) option \<times> state" where
  "download_contest n sess download_delay contest s =
     (case load_retrying n sess (contest_path contest) (contest_url contest) download_delay s of
        (Some (Inr data), s') \<Rightarrow> (Some (Inr ()), s')
      | (Some (Inl e), s') \<Rightarrow> (Some (Inl e), s')
      | (None, s') \<Rightarrow> (None, s'))"

text \<open>
  Line 89 builds a Python set and line 90 iterates it. The order of that iteration is
  not fixed by the program: it depends on the hashes of the elements, which change from
  one process to the next, and on how the set was filled. The model takes it from the
  environment: \<open>h xs\<close> ranks the elements of the set filled from the list \<open>xs\<close>, and the
  set is iterated by rank. Whatever \<open>h\<close> is, every element comes once; and every order of
  the elements is the order of some \<open>h\<close>: \<open>ranked_as ys\<close> ranks the elements by their
  place in the list \<open>ys\<close> (\<open>iterate_set_any_order\<close> below).
\<close>

type_synonym set_order = "string list \<Rightarrow> string \<Rightarrow> nat"

definition iterate_set :: "set_order \<Rightarrow> string list \<Rightarrow> string list" where
  "iterate_set h xs = sort_key (h xs) (remdups xs)"

definition ranked_as :: "string list \<Rightarrow> set_order" where
  "ranked_as ys xs x = length (takeWhile (\<lambda>y. y \<noteq> x) ys)"

text \<open>The body of the loop over the precincts of a barangay (lines 76 to 104).\<close>

definition download_precinct ::
  "nat \<Rightarrow> session \<Rightarrow> set_order \<Rightarrow> string \<Rightarrow> real \<Rightarrow> precinct \<Rightarrow> state
     \<Rightarrow> (error + unit) option \<times> state" where
  "download_precinct n sess h node_dir download_delay p s =
     (let precinct_path = path_join BASE_DIR [''results'', node_dir, ppcc p @ ''.json'']
      in case vbs p of
           [v] \<Rightarrow>
             (let precinct_url = urljoin [BASE_URL, ''results'', vb_url v @ ''.json'']
              in case load_or_download sess precinct_path precinct_url download_delay s of
                   (Inl e, s') \<Rightarrow>
                     if is_ValueError e then (Some (Inr ()), s') else (Some (Inl e), s')
                 | (Inr precinct_results, s') \<Rightarrow>
                     (case precinct_results of
                        Results rows \<Rightarrow>
                          for_each (download_contest n sess download_delay)
                            (iterate_set h (map cc rows)) s'
                      | NodeInfo c ch ps \<Rightarrow> (Some (Inl KeyError), s')
                      | Document d \<Rightarrow> (Some (Inl KeyError), s')))
         | [] \<Rightarrow> (Some (Inl AssertionError), s)
         | v # w # ws \<Rightarrow> (Some (Inl AssertionError), s))"

text \<open>The body of the loop over the certificates of canvass (lines 111 to 118).\<close>

definition download_coc ::
  "session \<Rightarrow> string \<Rightarrow> real \<Rightarrow> precinct \<Rightarrow> state \<Rightarrow> (error + unit) option \<times> state" where
  "download_coc sess node_dir download_delay coc s =
     (let coc_path = path_join BASE_DIR [''results'', node_dir, ''coc.json'']
      in case vbs coc of
           [v] \<Rightarrow>
             (let coc_url = urljoin [BASE_URL, ''results'', vb_url v @ ''.json'']
              in case load_or_download sess coc_path coc_url download_delay s of
                   (Inl e, s') \<Rightarrow>
                     if is_ValueError e then (Some (Inr ()), s') else (Some (Inl e), s')
                 | (Inr data, s') \<Rightarrow> (Some (Inr ()), s'))
         | [] \<Rightarrow> (Some (Inl AssertionError), s)
         | v # w # ws \<Rightarrow> (Some (Inl AssertionError), s))"

text \<open>The branch on the classification of the node (lines 74 to 118).\<close>

definition terminal_data ::
  "nat \<Rightarrow> session \<Rightarrow> set_order \<Rightarrow> string \<Rightarrow> real \<Rightarrow> string \<Rightarrow> precinct list \<Rightarrow> state
     \<Rightarrow> (error + unit) option \<times> state" where
  "terminal_data n sess h node_dir download_delay c ps s =
     (if c = ''Barangay''
      then for_each (download_precinct n sess h node_dir download_delay) ps s
      else if c = ''Country'' \<or> length ps < 2
      then for_each (download_coc sess node_dir download_delay) ps s
      else (Some (Inl AssertionError), s))"

text \<open>
  The recursion follows the tree that the descriptors describe, which the program does
  not know in advance: the fuel bounds its depth as well as every retry loop.
\<close>

fun download_data ::
  "nat \<Rightarrow> session \<Rightarrow> set_order \<Rightarrow> string \<Rightarrow> string \<Rightarrow> real \<Rightarrow> state
     \<Rightarrow> (error + unit) option \<times> state" where
  "download_data 0 sess h node_dir node_url download_delay s = (None, s)"
| "download_data (Suc n) sess h node_dir node_url download_delay s =
     (let info_path = path_join BASE_DIR [''results'', node_dir, ''info.json''];
          info_url = urljoin [BASE_URL, ''regions'', node_url]
      in case load_retrying n sess info_path info_url download_delay s of
           (None, s1) \<Rightarrow> (None, s1)
         | (Some (Inl e), s1) \<Rightarrow> (Some (Inl e), s1)
         | (Some (Inr node_info), s1) \<Rightarrow>
             (case node_info of
                NodeInfo c children ps \<Rightarrow>
                  (case for_each
                          (\<lambda>ch. download_data n sess h
                                  (path_join node_dir [replace CHR ''/'' CHR ''_'' (child_rn ch)])
                                  (child_url ch @ ''.json'') download_delay)
                          children s1 of
                     (Some (Inr u), s2) \<Rightarrow>
                       terminal_data n sess h node_dir download_delay c ps s2
                   | (Some (Inl e), s2) \<Rightarrow> (Some (Inl e), s2)
                   | (None, s2) \<Rightarrow> (None, s2))
              | Results rows \<Rightarrow> (Some (Inl KeyError), s1)
              | Document d \<Rightarrow> (Some (Inl KeyError), s1)))"

subsection \<open>\<^verbatim>\<open>main\<close> (lines 120 to 138)\<close>

text \<open>
  The options are \<open>base_dir\<close>, \<open>download_delay\<close> and \<open>log_level\<close>. Line 131 binds a
  local name \<^verbatim>\<open>BASE_DIR\<close> to \<^verbatim>\<open>'data'\<close>; \<^verbatim>\<open>download_data\<close> reads the module's
  \<^verbatim>\<open>BASE_DIR\<close>. The session, the order of set iteration and the files are the
  environment of the run.
\<close>

definition main ::
  "string \<Rightarrow> real \<Rightarrow> string \<Rightarrow> nat \<Rightarrow> session \<Rightarrow> set_order \<Rightarrow> state
     \<Rightarrow> (error + unit) option \<times> state" where
  "main base_dir download_delay log_level n sess h s =
     download_data n sess h [] ''root.json'' download_delay s"

subsection \<open>Relations between the state before and the state after\<close>

text \<open>
  The pairs of path and URL that \<^verbatim>\<open>download_data\<close> passes to \<^verbatim>\<open>load_or_download\<close>:
  lines 57 and 58, lines 77 to 81, lines 112 to 114 and lines 91 to 94.
\<close>

inductive call_site :: "string \<Rightarrow> string \<Rightarrow> bool" where
  info: "call_site (path_join BASE_DIR [''results'', node_dir, ''info.json''])
                   (urljoin [BASE_URL, ''regions'', node_url])"
| precinct: "call_site (path_join BASE_DIR [''results'', node_dir, code @ ''.json''])
                       (urljoin [BASE_URL, ''results'', locator @ ''.json''])"
| coc: "call_site (path_join BASE_DIR [''results'', node_dir, ''coc.json''])
                  (urljoin [BASE_URL, ''results'', locator @ ''.json''])"
| contest: "call_site (contest_path contest) (contest_url contest)"

text \<open>
  A relation between states is kept by the traversal with the session \<open>sess\<close> and the
  delay \<open>d\<close> when it holds between a state and itself, composes, and holds across a sleep
  and across a call of \<^verbatim>\<open>load_or_download\<close> at a call site.
\<close>

definition kept :: "session \<Rightarrow> real \<Rightarrow> (state \<Rightarrow> state \<Rightarrow> bool) \<Rightarrow> bool" where
  "kept sess d T \<longleftrightarrow>
     (\<forall>s. T s s)
     \<and> (\<forall>a b c. T a b \<longrightarrow> T b c \<longrightarrow> T a c)
     \<and> (\<forall>s t. T s (emit (Sleep t) s))
     \<and> (\<forall>p u s. call_site p u \<longrightarrow> T s (snd (load_or_download sess p u d s)))"

text \<open>
  \<open>settled p\<close>: the log has grown; a file at \<open>p\<close> stays, and while it is there nothing
  is requested for \<open>p\<close>; a write to \<open>p\<close> leaves a file at \<open>p\<close>; and after the first
  write to \<open>p\<close> nothing is requested for \<open>p\<close>.
\<close>

fun fetches :: "string \<Rightarrow> event \<Rightarrow> bool" where
  "fetches p (Fetch q u) = (q = p)"
| "fetches p (Sleep t) = False"
| "fetches p (Load q) = False"
| "fetches p (Write q c) = False"

fun writes :: "string \<Rightarrow> event \<Rightarrow> bool" where
  "writes p (Write q c) = (q = p)"
| "writes p (Fetch q u) = False"
| "writes p (Sleep t) = False"
| "writes p (Load q) = False"

definition settled :: "string \<Rightarrow> state \<Rightarrow> state \<Rightarrow> bool" where
  "settled p s s' \<longleftrightarrow>
     (\<exists>l. log s' = log s @ l
        \<and> (fs s p \<noteq> None \<longrightarrow> fs s' p \<noteq> None \<and> (\<forall>e \<in> set l. \<not> fetches p e))
        \<and> ((\<exists>e \<in> set l. writes p e) \<longrightarrow> fs s' p \<noteq> None)
        \<and> (\<forall>e \<in> set (dropWhile (\<lambda>e. \<not> writes p e) l). \<not> fetches p e))"

text \<open>
  The requests for the locator \<open>u\<close> that the upstream answers with JSON, counted along a
  log; \<open>k\<close> is the number of requests issued before the log starts. \<open>once sess X\<close>: the
  log has grown by at most one such request for the contest \<open>X\<close>; if by one, the file of
  the contest is there afterwards; and by none if the file was there before.
\<close>

fun is_json :: "response \<Rightarrow> bool" where
  "is_json (Response (Json data)) = True"
| "is_json (Response NotJson) = False"
| "is_json ConnectionFailed = False"

fun answered_with_json :: "session \<Rightarrow> string \<Rightarrow> nat \<Rightarrow> event list \<Rightarrow> nat" where
  "answered_with_json sess u k [] = 0"
| "answered_with_json sess u k (Fetch p v # es) =
     (if v = u \<and> is_json (sess k v) then 1 else 0) + answered_with_json sess u (Suc k) es"
| "answered_with_json sess u k (Sleep t # es) = answered_with_json sess u k es"
| "answered_with_json sess u k (Load p # es) = answered_with_json sess u k es"
| "answered_with_json sess u k (Write p c # es) = answered_with_json sess u k es"

definition once :: "session \<Rightarrow> string \<Rightarrow> state \<Rightarrow> state \<Rightarrow> bool" where
  "once sess X s s' \<longleftrightarrow>
     (\<exists>l. log s' = log s @ l
        \<and> answered_with_json sess (contest_url X) (requests_made (log s)) l \<le> 1
        \<and> (0 < answered_with_json sess (contest_url X) (requests_made (log s)) l
             \<longrightarrow> fs s' (contest_path X) \<noteq> None)
        \<and> (fs s (contest_path X) \<noteq> None
             \<longrightarrow> fs s' (contest_path X) \<noteq> None
                 \<and> answered_with_json sess (contest_url X) (requests_made (log s)) l = 0))"

text \<open>\<open>at_call_sites\<close>: every request added to the log was issued at a call site.\<close>

definition at_call_sites :: "state \<Rightarrow> state \<Rightarrow> bool" where
  "at_call_sites s s' \<longleftrightarrow>
     (\<exists>l. log s' = log s @ l \<and> (\<forall>p u. Fetch p u \<in> set l \<longrightarrow> call_site p u))"

text \<open>
  For the comparison of a second run with the first. \<open>grows\<close>: the log has grown, and
  when no request in it is for a path with a \<^verbatim>\<open>*\<close>, every file is still there with the
  text it had. \<open>only_loads\<close>: the files are the same and the log has gained reads only.
  \<open>answered sess E\<close>: the upstream does not change over time, and every request among the
  events \<open>E\<close> is for a path without \<^verbatim>\<open>*\<close> and for a locator the upstream answers with
  JSON.
\<close>

fun is_Load :: "event \<Rightarrow> bool" where
  "is_Load (Load p) = True"
| "is_Load (Fetch p u) = False"
| "is_Load (Sleep t) = False"
| "is_Load (Write p c) = False"

definition grows :: "state \<Rightarrow> state \<Rightarrow> bool" where
  "grows s s' \<longleftrightarrow>
     (\<exists>l. log s' = log s @ l)
     \<and> ((\<forall>p u. Fetch p u \<in> set (log s') \<longrightarrow> CHR ''*'' \<notin> set p) \<longrightarrow> fs s \<subseteq>\<^sub>m fs s')"

definition only_loads :: "state \<Rightarrow> state \<Rightarrow> bool" where
  "only_loads t t' \<longleftrightarrow> (\<exists>m. t' = t\<lparr>log := log t @ m\<rparr> \<and> (\<forall>e \<in> set m. is_Load e))"

definition answered :: "session \<Rightarrow> event set \<Rightarrow> bool" where
  "answered sess E \<longleftrightarrow>
     (\<forall>k u. sess k u = sess 0 u)
     \<and> (\<forall>p u. Fetch p u \<in> E \<longrightarrow> CHR ''*'' \<notin> set p \<and> (\<exists>doc. sess 0 u = Response (Json doc)))"

subsection \<open>Concrete storage trees and upstreams\<close>

text \<open>The inputs at which the theorems below are evaluated.\<close>

definition no_files :: state where
  "no_files = \<lparr>fs = Map.empty, log = []\<rparr>"

text \<open>
  An order of set iteration: every element has the same rank, so a set is iterated in
  the order in which its elements were last added.
\<close>

definition as_added :: set_order where
  "as_added xs x = 0"

definition unavailable :: session where
  "unavailable k u = Response NotJson"

definition offline :: session where
  "offline k u = ConnectionFailed"

text \<open>A barangay with one precinct whose code holds a \<^verbatim>\<open>*\<close>; its return has no rows.\<close>

definition star_upstream :: session where
  "star_upstream k u =
     (if u = urljoin [BASE_URL, ''regions'', ''root.json'']
      then Response (Json (NodeInfo ''Barangay'' [] [Precinct ''1*'' [VB ''r'']]))
      else if u = urljoin [BASE_URL, ''results'', ''r.json'']
      then Response (Json (Results []))
      else Response NotJson)"

text \<open>
  Storage left by an earlier run: the descriptor of a barangay with two precincts, the
  return of the first cut short so that it does not parse, the return of the second whole.
\<close>

definition corrupt_return :: state where
  "corrupt_return =
     \<lparr>fs = [''data/results/info.json'' \<mapsto>
               Json (NodeInfo ''Barangay'' []
                       [Precinct ''1'' [VB ''r''], Precinct ''2'' [VB ''q'']]),
             ''data/results/1.json'' \<mapsto> NotJson,
             ''data/results/2.json'' \<mapsto> Json (Results [])],
      log = []\<rparr>"

text \<open>Storage whose root descriptor does not parse.\<close>

definition corrupt_info :: state where
  "corrupt_info = \<lparr>fs = [''data/results/info.json'' \<mapsto> NotJson], log = []\<rparr>"

text \<open>A tree of one node without terminal data.\<close>

definition one_node :: session where
  "one_node k u =
     (if u = urljoin [BASE_URL, ''regions'', ''root.json'']
      then Response (Json (NodeInfo ''Region'' [] []))
      else Response NotJson)"

text \<open>
  Two barangays \<open>A\<close> and \<open>B\<close> whose returns both name the contest \<open>X\<close>, the first
  in two rows. Contest \<open>X\<close> is published late: a request for it that is among the first
  four requests the upstream receives is answered with text that is not JSON. Each return
  names one contest, so the order in which a set is iterated plays no part.
\<close>

definition two_leaves :: session where
  "two_leaves k u =
     (if u = urljoin [BASE_URL, ''regions'', ''root.json'']
      then Response (Json (NodeInfo ''Region'' [Child ''A'' ''a'', Child ''B'' ''b''] []))
      else if u = urljoin [BASE_URL, ''regions'', ''a.json'']
      then Response (Json (NodeInfo ''Barangay'' [] [Precinct ''1'' [VB ''r1'']]))
      else if u = urljoin [BASE_URL, ''regions'', ''b.json'']
      then Response (Json (NodeInfo ''Barangay'' [] [Precinct ''2'' [VB ''r2'']]))
      else if u = urljoin [BASE_URL, ''results'', ''r1.json'']
      then Response (Json (Results [Row ''X'', Row ''X'']))
      else if u = urljoin [BASE_URL, ''results'', ''r2.json'']
      then Response (Json (Results [Row ''X'']))
      else if u = contest_url ''X''
      then (if k < 4 then Response NotJson else Response (Json (Document ''x'')))
      else Response NotJson)"

text \<open>
  Three states of the run on \<open>two_leaves\<close> from empty storage, with a delay of half a
  second and sets iterated as added: the descriptor of barangay \<open>A\<close> has been resolved;
  then its return; and, after barangay \<open>A\<close> is done, the return of barangay \<open>B\<close>.
\<close>

definition first_leaf_reached :: state where
  "first_leaf_reached =
     snd (load_retrying 3 two_leaves ''data/results/A/info.json''
            (urljoin [BASE_URL, ''regions'', ''a.json'']) (1/2)
            (snd (load_retrying 4 two_leaves ''data/results/info.json''
                    (urljoin [BASE_URL, ''regions'', ''root.json'']) (1/2) no_files)))"

definition first_return_resolved :: state where
  "first_return_resolved =
     snd (load_or_download two_leaves ''data/results/A/1.json''
            (urljoin [BASE_URL, ''results'', ''r1.json'']) (1/2) first_leaf_reached)"

definition second_return_resolved :: state where
  "second_return_resolved =
     snd (load_or_download two_leaves ''data/results/B/2.json''
            (urljoin [BASE_URL, ''results'', ''r2.json'']) (1/2)
            (snd (load_retrying 3 two_leaves ''data/results/B/info.json''
                    (urljoin [BASE_URL, ''regions'', ''b.json'']) (1/2)
                    (snd (download_precinct 3 two_leaves as_added ''A'' (1/2)
                            (Precinct ''1'' [VB ''r1'']) first_leaf_reached)))))"

text \<open>The same two barangays; both returns name the contest \<^verbatim>\<open>Y*\<close>, published in time.\<close>

definition starred_contest :: session where
  "starred_contest k u =
     (if u = urljoin [BASE_URL, ''regions'', ''root.json'']
      then Response (Json (NodeInfo ''Region'' [Child ''A'' ''a'', Child ''B'' ''b''] []))
      else if u = urljoin [BASE_URL, ''regions'', ''a.json'']
      then Response (Json (NodeInfo ''Barangay'' [] [Precinct ''1'' [VB ''r1'']]))
      else if u = urljoin [BASE_URL, ''regions'', ''b.json'']
      then Response (Json (NodeInfo ''Barangay'' [] [Precinct ''2'' [VB ''r2'']]))
      else if u = urljoin [BASE_URL, ''results'', ''r1.json'']
      then Response (Json (Results [Row ''Y*'']))
      else if u = urljoin [BASE_URL, ''results'', ''r2.json'']
      then Response (Json (Results [Row ''Y*'']))
      else if u = contest_url ''Y*''
      then Response (Json (Document ''y''))
      else Response NotJson)"

text \<open>
  A barangay with three precincts whose returns are not published: each request for one
  is answered with text that is not JSON.
\<close>

definition unpublished_returns :: session where
  "unpublished_returns k u =
     (if u = urljoin [BASE_URL, ''regions'', ''root.json'']
      then Response (Json (NodeInfo ''Barangay'' []
                             [Precinct ''1'' [VB ''r1''], Precinct ''2'' [VB ''r2''],
                              Precinct ''3'' [VB ''r3'']]))
      else Response NotJson)"

text \<open>
  A barangay whose second precinct has no voting-board reference, on an upstream that
  answers the descriptor and then drops every connection.
\<close>

definition violation_behind_failure :: session where
  "violation_behind_failure k u =
     (if u = urljoin [BASE_URL, ''regions'', ''root.json'']
      then Response (Json (NodeInfo ''Barangay'' []
                             [Precinct ''1'' [VB ''r1''], Precinct ''2'' []]))
      else ConnectionFailed)"

text \<open>
  A barangay whose second precinct has no voting-board reference and whose first return
  names a contest that is never published.
\<close>

definition violation_behind_retry :: session where
  "violation_behind_retry k u =
     (if u = urljoin [BASE_URL, ''regions'', ''root.json'']
      then Response (Json (NodeInfo ''Barangay'' []
                             [Precinct ''1'' [VB ''r1''], Precinct ''2'' []]))
      else if u = urljoin [BASE_URL, ''results'', ''r1.json'']
      then Response (Json (Results [Row ''X'']))
      else Response NotJson)"

text \<open>
  A country with one child \<open>A\<close>, a region whose descriptor lists two certificates of
  canvass.
\<close>

definition violation_in_child :: session where
  "violation_in_child k u =
     (if u = urljoin [BASE_URL, ''regions'', ''root.json'']
      then Response (Json (NodeInfo ''Country'' [Child ''A'' ''a''] []))
      else if u = urljoin [BASE_URL, ''regions'', ''a.json'']
      then Response (Json (NodeInfo ''Region'' []
                             [Precinct ''n1'' [VB ''c1''], Precinct ''n2'' [VB ''c2'']]))
      else Response NotJson)"

text \<open>A country node, reached under the name \<open>A*\<close>, with two certificates of canvass.\<close>

definition starred_country :: session where
  "starred_country k u =
     (if u = urljoin [BASE_URL, ''regions'', ''root.json'']
      then Response (Json (NodeInfo ''World'' [Child ''A*'' ''a''] []))
      else if u = urljoin [BASE_URL, ''regions'', ''a.json'']
      then Response (Json (NodeInfo ''Country'' []
                             [Precinct ''n1'' [VB ''c1''], Precinct ''n2'' [VB ''c2'']]))
      else if u = urljoin [BASE_URL, ''results'', ''c1.json'']
      then Response (Json (Document ''one''))
      else if u = urljoin [BASE_URL, ''results'', ''c2.json'']
      then Response (Json (Document ''two''))
      else Response NotJson)"

text \<open>A country node whose second certificate has no voting-board reference.\<close>

definition malformed_country :: session where
  "malformed_country k u =
     (if u = urljoin [BASE_URL, ''regions'', ''root.json'']
      then Response (Json (NodeInfo ''Country'' []
                             [Precinct ''n1'' [VB ''c1''], Precinct ''n2'' []]))
      else if u = urljoin [BASE_URL, ''results'', ''c1.json'']
      then Response (Json (Document ''one''))
      else Response NotJson)"

text \<open>
  The scenario of the specification: a region with one child \<open>A\<close>, a barangay with one
  precinct, whose return has two rows for the contest \<open>C1\<close>.
\<close>

definition end_to_end :: session where
  "end_to_end k u =
     (if u = urljoin [BASE_URL, ''regions'', ''root.json'']
      then Response (Json (NodeInfo ''Region'' [Child ''A'' ''a''] []))
      else if u = urljoin [BASE_URL, ''regions'', ''a.json'']
      then Response (Json (NodeInfo ''Barangay'' [] [Precinct ''p1'' [VB ''res1'']]))
      else if u = urljoin [BASE_URL, ''results'', ''res1.json'']
      then Response (Json (Results [Row ''C1'', Row ''C1'']))
      else if u = contest_url ''C1''
      then Response (Json (Document ''c1''))
      else Response NotJson)"

text \<open>Storage that holds the document of contest \<open>X\<close> and nothing else.\<close>

definition contest_stored :: state where
  "contest_stored = \<lparr>fs = [''data/contests/X.json'' \<mapsto> Json (Document ''x'')], log = []\<rparr>"

section \<open>The order of set iteration\<close>

text \<open>
  Whatever the order, a set is iterated over its elements, each once; and every order
  of the elements is the order of some environment, so a statement made for every
  \<open>h\<close> covers every order in which Python may iterate the set.
\<close>

lemma set_iterate_set: "set (iterate_set h xs) = set xs"
  by (simp add: iterate_set_def)

lemma distinct_iterate_set: "distinct (iterate_set h xs)"
  by (simp add: iterate_set_def)

lemma iterate_set_single: "iterate_set h [x] = [x]"
  by (simp add: iterate_set_def)

lemma position_nth:
  "distinct ys \<Longrightarrow> i < length ys \<Longrightarrow> length (takeWhile (\<lambda>y. y \<noteq> ys ! i) ys) = i"
proof (induction ys arbitrary: i)
  case Nil
  then show ?case by simp
next
  case (Cons y ys)
  show ?case
  proof (cases i)
    case 0
    then show ?thesis by simp
  next
    case (Suc j)
    with Cons.prems have "j < length ys" "ys ! j \<in> set ys" "y \<notin> set ys" "distinct ys"
      by auto
    with Cons.IH [of j] Suc show ?thesis by auto
  qed
qed

lemma iterate_set_any_order:
  assumes "distinct ys" and "set ys = set xs"
  shows "iterate_set (ranked_as ys) xs = ys"
proof -
  let ?f = "ranked_as ys xs"
  let ?zs = "sort_key ?f (remdups xs)"
  have pos: "?f (ys ! i) = i" if "i < length ys" for i
    using assms(1) that by (simp add: ranked_as_def position_nth)
  have ranks: "map ?f ys = [0..<length ys]"
    by (rule nth_equalityI) (simp_all add: pos)
  have inj: "inj_on ?f (set ys)"
  proof (rule inj_onI)
    fix a b
    assume "a \<in> set ys" "b \<in> set ys" "?f a = ?f b"
    then obtain i j where "i < length ys" "a = ys ! i" "j < length ys" "b = ys ! j"
      by (metis in_set_conv_nth)
    with \<open>?f a = ?f b\<close> show "a = b" by (simp add: pos)
  qed
  have same: "set ?zs = set ys" using assms(2) by simp
  have "map ?f ?zs = map ?f ys"
  proof (rule sorted_distinct_set_unique)
    show "sorted (map ?f ?zs)" by simp
    show "distinct (map ?f ?zs)" using inj same by (simp add: distinct_map)
    show "sorted (map ?f ys)" by (simp add: ranks)
    show "distinct (map ?f ys)" by (simp add: ranks)
    show "set (map ?f ?zs) = set (map ?f ys)" using same by simp
  qed
  moreover have "inj_on ?f (set ?zs \<union> set ys)" using inj same by simp
  ultimately have "?zs = ys" by (simp add: inj_on_map_eq_map)
  then show ?thesis by (simp add: iterate_set_def)
qed

section \<open>Properties of \<^verbatim>\<open>load_or_download\<close>\<close>

text \<open>
  C3. When a file exists at the storage path, \<^verbatim>\<open>load_or_download\<close> returns what the
  file parses to (or raises the parser's error), issues no network request, and has no
  effect but the read: the files are the same afterwards and the only new entry of the log
  is the read. It holds for every session, so the answer cannot depend on the network.
\<close>

theorem load_or_download_cache_hit:
  assumes "fs s file_path = Some text"
  shows "fst (load_or_download sess file_path url download_delay s) =
           (case text of Json data \<Rightarrow> Inr data | NotJson \<Rightarrow> Inl JSONDecodeError)
         \<and> fs (snd (load_or_download sess file_path url download_delay s)) = fs s
         \<and> log (snd (load_or_download sess file_path url download_delay s))
             = log s @ [Load file_path]
         \<and> requests_made (log (snd (load_or_download sess file_path url download_delay s)))
             = requests_made (log s)"
  using assms
  by (simp add: load_or_download_def emit_def requests_made_def split: content.split)

theorem load_or_download_cache_hit_witness:
  "fs (no_files\<lparr>fs := [''data/contests/7.json'' \<mapsto> Json (Document ''seven'')]\<rparr>)
      ''data/contests/7.json'' = Some (Json (Document ''seven''))
   \<and> fst (load_or_download offline ''data/contests/7.json'' ''u'' (1/2)
            (no_files\<lparr>fs := [''data/contests/7.json'' \<mapsto> Json (Document ''seven'')]\<rparr>))
      = Inr (Document ''seven'')
   \<and> log (snd (load_or_download offline ''data/contests/7.json'' ''u'' (1/2)
            (no_files\<lparr>fs := [''data/contests/7.json'' \<mapsto> Json (Document ''seven'')]\<rparr>)))
      = [Load ''data/contests/7.json'']"
  using load_or_download_cache_hit
    [of "no_files\<lparr>fs := [''data/contests/7.json'' \<mapsto> Json (Document ''seven'')]\<rparr>"
        "''data/contests/7.json''" "Json (Document ''seven'')" offline "''u''" "1/2"]
  by (simp add: no_files_def)

text \<open>
  C6. When the file is absent and the response does not parse as JSON,
  \<^verbatim>\<open>load_or_download\<close> raises the \<open>ValueError\<close> of line 33, which every
  \<^verbatim>\<open>except ValueError\<close> handler catches, and writes nothing: the files are the same
  afterwards and the only new entry of the log is the request.
\<close>

theorem load_or_download_not_available:
  assumes "fs s file_path = None"
    and "sess (requests_made (log s)) url = Response NotJson"
  shows "fst (load_or_download sess file_path url download_delay s) = Inl ValueError
         \<and> is_ValueError ValueError
         \<and> fs (snd (load_or_download sess file_path url download_delay s)) = fs s
         \<and> log (snd (load_or_download sess file_path url download_delay s))
             = log s @ [Fetch file_path url]"
  using assms by (simp add: load_or_download_def emit_def)

theorem load_or_download_not_available_witness:
  "fs no_files ''data/results/info.json'' = None
   \<and> unavailable (requests_made (log no_files)) ''u'' = Response NotJson
   \<and> fst (load_or_download unavailable ''data/results/info.json'' ''u'' (1/2) no_files)
        = Inl ValueError
   \<and> fs (snd (load_or_download unavailable ''data/results/info.json'' ''u'' (1/2) no_files))
        = fs no_files
   \<and> log (snd (load_or_download unavailable ''data/results/info.json'' ''u'' (1/2) no_files))
        = [Fetch ''data/results/info.json'' ''u'']"
  using load_or_download_not_available
    [of no_files "''data/results/info.json''" unavailable "''u''" "1/2"]
  by (simp add: no_files_def unavailable_def)

text \<open>
  The effects of a call that finds no file, for a delay that is not negative: the
  request; then, when the response parses, the delay and the write of the file. For a
  negative delay \<^verbatim>\<open>time.sleep\<close> raises after the request, and nothing is written.
\<close>

lemma load_or_download_fetch_effects:
  assumes "fs s file_path = None" and "0 \<le> download_delay"
  shows "log (snd (load_or_download sess file_path url download_delay s)) =
           (case sess (requests_made (log s)) url of
              Response (Json data) \<Rightarrow>
                log s @ [Fetch file_path url, Sleep download_delay,
                         Write (replace CHR ''*'' CHR ''_'' file_path) (Json data)]
            | Response NotJson \<Rightarrow> log s @ [Fetch file_path url]
            | ConnectionFailed \<Rightarrow> log s @ [Fetch file_path url])"
  using assms
  by (simp add: load_or_download_def emit_def Let_def split: response.split content.split)

lemma negative_delay_raises_before_write:
  assumes "fs s file_path = None"
    and "sess (requests_made (log s)) url = Response (Json data)"
    and "download_delay < 0"
  shows "load_or_download sess file_path url download_delay s
           = (Inl NegativeSleep, emit (Fetch file_path url) s)"
  using assms by (simp add: load_or_download_def)

text \<open>
  C5, evaluated where the code departs from it. The claim has the delay follow every
  request, whether the response parses or not, and the program documents
  \<^verbatim>\<open>download_delay\<close> as the minimum delay between successive downloads (lines 52 to 53
  and 123 to 124). But \<^verbatim>\<open>time.sleep(download_delay)\<close> stands after \<^verbatim>\<open>.json()\<close> inside the
  \<^verbatim>\<open>try\<close> block (line 30), so a response that does not parse is followed by no delay.
  On the upstream \<open>unpublished_returns\<close>, run with a delay of 5 seconds from empty
  storage, the run returns normally and the three returns are requested one right after
  the other: the only sleep of the run follows the request for the descriptor.
\<close>

theorem unpublished_returns_are_requested_back_to_back:
  "fst (main ''data'' 5 ''INFO'' 3 unpublished_returns h no_files) = Some (Inr ())
   \<and> log (snd (main ''data'' 5 ''INFO'' 3 unpublished_returns h no_files))
      = [Fetch ''data/results/info.json'' (urljoin [BASE_URL, ''regions'', ''root.json'']),
         Sleep 5,
         Write ''data/results/info.json''
           (Json (NodeInfo ''Barangay'' []
                    [Precinct ''1'' [VB ''r1''], Precinct ''2'' [VB ''r2''],
                     Precinct ''3'' [VB ''r3'']])),
         Fetch ''data/results/1.json'' (urljoin [BASE_URL, ''results'', ''r1.json'']),
         Fetch ''data/results/2.json'' (urljoin [BASE_URL, ''results'', ''r2.json'']),
         Fetch ''data/results/3.json'' (urljoin [BASE_URL, ''results'', ''r3.json''])]"
  by code_simp

section \<open>Errors at the call sites of \<^verbatim>\<open>download_data\<close>\<close>

text \<open>
  The retry loop: an exception that \<^verbatim>\<open>except ValueError\<close> catches is followed by a
  sleep of \<open>RETRY_WAIT\<close> and another attempt; any other exception leaves the loop at
  once. When the file is absent, the delay is not negative and the upstream answers
  \<open>k\<close> requests with text that does not parse and the next one with JSON, fuel above
  \<open>k\<close> is enough: the loop returns the document after \<open>k\<close> failed attempts, each
  followed by the fixed wait, and the document is stored. At a terminal-data call site
  there is one attempt, and a caught exception skips the reference.
\<close>

lemma load_retrying_retries:
  assumes "load_or_download sess p u d s = (Inl e, s1)" and "is_ValueError e"
  shows "load_retrying (Suc n) sess p u d s
           = load_retrying n sess p u d (emit (Sleep RETRY_WAIT) s1)"
  using assms by simp

lemma load_retrying_propagates:
  assumes "load_or_download sess p u d s = (Inl e, s1)" and "\<not> is_ValueError e"
  shows "load_retrying (Suc n) sess p u d s = (Some (Inl e), s1)"
  using assms by simp

lemma load_retrying_eventually:
  assumes "fs s p = None"
    and "\<forall>i < k. sess (requests_made (log s) + i) u = Response NotJson"
    and "sess (requests_made (log s) + k) u = Response (Json data)"
    and "k < n" and "0 \<le> d"
  shows "\<exists>s'. load_retrying n sess p u d s = (Some (Inr data), s')
            \<and> log s' = log s @ concat (replicate k [Fetch p u, Sleep RETRY_WAIT])
                          @ [Fetch p u, Sleep d, Write (replace CHR ''*'' CHR ''_'' p) (Json data)]
            \<and> fs s' = (fs s)(replace CHR ''*'' CHR ''_'' p \<mapsto> Json data)"
  using assms
proof (induction k arbitrary: s n)
  case 0
  then obtain m where "n = Suc m" by (cases n) auto
  with 0 show ?case
    by (simp add: load_or_download_def emit_def Let_def) (simp add: fun_upd_def)
next
  case (Suc k)
  then obtain m where n: "n = Suc m" and m: "k < m" by (cases n) auto
  let ?s1 = "emit (Sleep RETRY_WAIT) (emit (Fetch p u) s)"
  have first: "sess (requests_made (log s)) u = Response NotJson"
    using Suc.prems(2) by (metis add.right_neutral zero_less_Suc)
  have lod: "load_or_download sess p u d s = (Inl ValueError, emit (Fetch p u) s)"
    using first Suc.prems(1) by (simp add: load_or_download_def)
  have count: "requests_made (log ?s1) = Suc (requests_made (log s))"
    by (simp add: emit_def requests_made_def)
  have a: "fs ?s1 p = None" using Suc.prems(1) by (simp add: emit_def)
  have b: "\<forall>i < k. sess (requests_made (log ?s1) + i) u = Response NotJson"
    using Suc.prems(2) count by auto
  have c: "sess (requests_made (log ?s1) + k) u = Response (Json data)"
    using Suc.prems(3) count by simp
  from Suc.IH [OF a b c m Suc.prems(5)] obtain s' where
    s': "load_retrying m sess p u d ?s1 = (Some (Inr data), s')"
        "log s' = log ?s1 @ concat (replicate k [Fetch p u, Sleep RETRY_WAIT])
                          @ [Fetch p u, Sleep d, Write (replace CHR ''*'' CHR ''_'' p) (Json data)]"
        "fs s' = (fs ?s1)(replace CHR ''*'' CHR ''_'' p \<mapsto> Json data)"
    by blast
  have "load_retrying n sess p u d s = (Some (Inr data), s')"
    using n lod s'(1) by simp
  moreover have "log s' = log s @ concat (replicate (Suc k) [Fetch p u, Sleep RETRY_WAIT])
                          @ [Fetch p u, Sleep d, Write (replace CHR ''*'' CHR ''_'' p) (Json data)]"
    using s'(2) by (simp add: emit_def)
  moreover have "fs s' = (fs s)(replace CHR ''*'' CHR ''_'' p \<mapsto> Json data)"
    using s'(3) by (simp add: emit_def)
  ultimately show ?case by blast
qed

lemma terminal_site_skips:
  assumes "vbs q = [v]"
    and "load_or_download sess (path_join BASE_DIR [''results'', node_dir, ''coc.json''])
           (urljoin [BASE_URL, ''results'', vb_url v @ ''.json'']) d s = (Inl e, s1)"
  shows "download_coc sess node_dir d q s
           = (if is_ValueError e then (Some (Inr ()), s1) else (Some (Inl e), s1))"
  using assms by (simp add: download_coc_def)

text \<open>
  A file that does not parse makes the retry loop run for ever: the file does not change,
  so every round raises \<open>JSONDecodeError\<close> again, whatever the fuel.
\<close>

lemma load_retrying_unparsable_file:
  "fs s file_path = Some NotJson \<Longrightarrow>
     fst (load_retrying n sess file_path url download_delay s) = None"
proof (induction n arbitrary: s)
  case 0
  show ?case by simp
next
  case (Suc n)
  have step: "load_or_download sess file_path url download_delay s
                = (Inl JSONDecodeError, emit (Load file_path) s)"
    using Suc.prems by (simp add: load_or_download_def)
  have "fs (emit (Sleep RETRY_WAIT) (emit (Load file_path) s)) file_path = Some NotJson"
    using Suc.prems by (simp add: emit_def)
  then have "fst (load_retrying n sess file_path url download_delay
                    (emit (Sleep RETRY_WAIT) (emit (Load file_path) s))) = None"
    by (rule Suc.IH)
  with step show ?case by simp
qed

text \<open>
  C2, evaluated where the code departs from it. The claim lets only a response that does
  not parse be absorbed, and has every other error propagate at once. On the storage
  \<open>corrupt_return\<close> the return of precinct 1 is a local file that does not parse:
  \<^verbatim>\<open>json.load\<close> raises \<open>JSONDecodeError\<close>, the handler of line 85 catches it as a
  \<^verbatim>\<open>ValueError\<close>, the precinct is skipped and the run returns normally, with no request
  made (the session is offline).
\<close>

theorem unparsable_return_is_skipped:
  "fst (main ''data'' (1/2) ''INFO'' 3 offline h corrupt_return) = Some (Inr ())
   \<and> log (snd (main ''data'' (1/2) ''INFO'' 3 offline h corrupt_return))
      = [Load ''data/results/info.json'', Load ''data/results/1.json'',
         Load ''data/results/2.json'']"
  by code_simp

text \<open>
  C4, evaluated where the code departs from it. The claim wants a local file that does not
  parse to be a fatal error of its own kind, never retried. On the storage
  \<open>corrupt_info\<close> the root descriptor does not parse: \<^verbatim>\<open>load_or_download\<close> raises
  \<open>JSONDecodeError\<close>, which \<^verbatim>\<open>except ValueError\<close> catches, and the retry loop of
  lines 59 to 66 never ends: for every amount of fuel, every session and every option,
  \<^verbatim>\<open>main\<close> has neither returned nor raised.
\<close>

theorem unparsable_descriptor_is_retried_forever:
  "fst (load_or_download sess ''data/results/info.json'' url download_delay corrupt_info)
     = Inl JSONDecodeError
   \<and> is_ValueError JSONDecodeError
   \<and> (\<forall>n. fst (main base_dir download_delay log_level n sess h corrupt_info) = None)"
proof -
  have a: "fs corrupt_info ''data/results/info.json'' = Some NotJson"
    by (simp add: corrupt_info_def)
  have b: "fst (load_or_download sess ''data/results/info.json'' url download_delay corrupt_info)
             = Inl JSONDecodeError"
    using a by (simp add: load_or_download_def)
  have c: "fst (main base_dir download_delay log_level n sess h corrupt_info) = None" for n
  proof (cases n)
    case 0
    then show ?thesis by (simp add: main_def)
  next
    case (Suc m)
    have p: "path_join BASE_DIR [''results'', [], ''info.json''] = ''data/results/info.json''"
      by (simp add: path_join_def join_step_def BASE_DIR_def)
    have "fst (load_retrying m sess ''data/results/info.json''
                 (urljoin [BASE_URL, ''regions'', ''root.json'']) download_delay corrupt_info)
            = None"
      using a by (rule load_retrying_unparsable_file)
    then obtain s1 where
      "load_retrying m sess ''data/results/info.json''
         (urljoin [BASE_URL, ''regions'', ''root.json'']) download_delay corrupt_info
         = (None, s1)"
      by (metis prod.collapse)
    then show ?thesis
      using Suc p by (simp add: main_def)
  qed
  show ?thesis using b c by simp
qed

subsection \<open>The assertions on the descriptor\<close>

lemma for_each_append:
  "for_each body (xs @ ys) s =
     (case for_each body xs s of
        (Some (Inr u), s') \<Rightarrow> for_each body ys s'
      | (Some (Inl e), s') \<Rightarrow> (Some (Inl e), s')
      | (None, s') \<Rightarrow> (None, s'))"
  by (induction xs arbitrary: s) (auto split: prod.split option.split sum.split)

lemma download_precinct_assertion:
  "length (vbs p) \<noteq> 1 \<Longrightarrow>
     download_precinct n sess h node_dir download_delay p s = (Some (Inl AssertionError), s)"
  by (cases "vbs p" rule: remdups_adj.cases) (simp_all add: download_precinct_def)

lemma download_coc_assertion:
  "length (vbs p) \<noteq> 1 \<Longrightarrow>
     download_coc sess node_dir download_delay p s = (Some (Inl AssertionError), s)"
  by (cases "vbs p" rule: remdups_adj.cases) (simp_all add: download_coc_def)

lemma for_each_stops_at_assertion:
  assumes "\<And>s'. body p s' = (Some (Inl AssertionError), s')"
  shows "for_each body (before @ p # after) s =
           (case for_each body before s of
              (Some (Inr u), s') \<Rightarrow> (Some (Inl AssertionError), s')
            | (Some (Inl e), s') \<Rightarrow> (Some (Inl e), s')
            | (None, s') \<Rightarrow> (None, s'))"
  using assms by (simp add: for_each_append split: prod.split option.split sum.split)

lemma terminal_data_other_class:
  assumes "c \<noteq> ''Barangay''" and "c \<noteq> ''Country''"
    and "2 \<le> length ps \<or> (\<exists>p \<in> set ps. length (vbs p) \<noteq> 1)"
  shows "terminal_data n sess h node_dir download_delay c ps s = (Some (Inl AssertionError), s)"
proof (cases "2 \<le> length ps")
  case True
  with assms(1,2) show ?thesis by (simp add: terminal_data_def)
next
  case False
  with assms(3) obtain p where p: "p \<in> set ps" "length (vbs p) \<noteq> 1" by blast
  from False p(1) have "ps = [p]" by (cases ps) (auto simp: Suc_le_eq)
  with assms(1,2) p(2) show ?thesis
    by (simp add: terminal_data_def download_coc_assertion)
qed

lemma terminal_data_leaf_or_country:
  assumes "c = ''Barangay'' \<or> c = ''Country''" and "length (vbs p) \<noteq> 1"
  shows "terminal_data n sess h node_dir download_delay c (before @ p # after) s =
           (case terminal_data n sess h node_dir download_delay c before s of
              (Some (Inr u), s') \<Rightarrow> (Some (Inl AssertionError), s')
            | (Some (Inl e), s') \<Rightarrow> (Some (Inl e), s')
            | (None, s') \<Rightarrow> (None, s'))"
proof -
  have a: "download_precinct n sess h node_dir download_delay p s'
             = (Some (Inl AssertionError), s')" for s'
    using assms(2) by (rule download_precinct_assertion)
  have b: "download_coc sess node_dir download_delay p s'
             = (Some (Inl AssertionError), s')" for s'
    using assms(2) by (rule download_coc_assertion)
  show ?thesis
    using assms(1)
      for_each_stops_at_assertion
        [of "download_precinct n sess h node_dir download_delay" p before after s, OF a]
      for_each_stops_at_assertion
        [of "download_coc sess node_dir download_delay" p before after s, OF b]
    by (auto simp: terminal_data_def)
qed

text \<open>
  An exception raised while a child is visited ends the visit of the parent with the same
  exception, in the state the child left: nothing catches it on the way up.
\<close>

lemma child_error_ends_parent:
  assumes "load_retrying n sess (path_join BASE_DIR [''results'', node_dir, ''info.json''])
             (urljoin [BASE_URL, ''regions'', node_url]) d s
             = (Some (Inr (NodeInfo c children ps)), s1)"
    and "for_each (\<lambda>ch. download_data n sess h
                          (path_join node_dir [replace CHR ''/'' CHR ''_'' (child_rn ch)])
                          (child_url ch @ ''.json'') d) children s1 = (Some (Inl e), s2)"
  shows "download_data (Suc n) sess h node_dir node_url d s = (Some (Inl e), s2)"
  using assms by simp

text \<open>
  A resource that the upstream never publishes keeps the retry loop going for ever: no
  amount of fuel lets it return.
\<close>

lemma load_retrying_never_published:
  assumes "fs s p = None" and "\<forall>k. sess k u = Response NotJson"
  shows "fst (load_retrying n sess p u d s) = None"
  using assms(1)
proof (induction n arbitrary: s)
  case 0
  show ?case by simp
next
  case (Suc n)
  have step: "load_or_download sess p u d s = (Inl ValueError, emit (Fetch p u) s)"
    using Suc.prems assms(2) by (simp add: load_or_download_def)
  have "fs (emit (Sleep RETRY_WAIT) (emit (Fetch p u) s)) p = None"
    using Suc.prems by (simp add: emit_def)
  then have "fst (load_retrying n sess p u d (emit (Sleep RETRY_WAIT) (emit (Fetch p u) s)))
               = None"
    by (rule Suc.IH)
  with step show ?case by simp
qed

text \<open>
  C7, as the specification states it, fails: a descriptor that breaks an invariant does
  not make the traversal fail with an assertion whenever it is visited, because the
  assertions are reached only after the children and the references before have been
  handled (lines 69 to 72, 83 and 95 to 104 run first). On the upstream
  \<open>violation_behind_failure\<close> the second precinct has no voting-board reference, yet
  the run ends with the \<open>RequestException\<close> of the request for the first return. On the
  upstream \<open>violation_behind_retry\<close> the contest of the first return is never
  published: the run neither returns nor raises, whatever the fuel.
\<close>

theorem violation_is_not_reached:
  "(\<exists>p \<in> set [Precinct ''1'' [VB ''r1''], Precinct ''2'' []]. length (vbs p) \<noteq> 1)
   \<and> (\<forall>h. fst (main ''data'' (1/2) ''INFO'' 3 violation_behind_failure h no_files)
            = Some (Inl RequestException)
          \<and> log (snd (main ''data'' (1/2) ''INFO'' 3 violation_behind_failure h no_files))
            = [Fetch ''data/results/info.json'' (urljoin [BASE_URL, ''regions'', ''root.json'']),
               Sleep (1/2),
               Write ''data/results/info.json''
                 (Json (NodeInfo ''Barangay'' []
                          [Precinct ''1'' [VB ''r1''], Precinct ''2'' []])),
               Fetch ''data/results/1.json'' (urljoin [BASE_URL, ''results'', ''r1.json''])])
   \<and> (\<forall>n h. fst (main ''data'' (1/2) ''INFO'' n violation_behind_retry h no_files) = None)"
proof -
  have a: "\<exists>p \<in> set [Precinct ''1'' [VB ''r1''], Precinct ''2'' []]. length (vbs p) \<noteq> 1"
    by simp
  have b: "fst (main ''data'' (1/2) ''INFO'' 3 violation_behind_failure h no_files)
            = Some (Inl RequestException)
          \<and> log (snd (main ''data'' (1/2) ''INFO'' 3 violation_behind_failure h no_files))
            = [Fetch ''data/results/info.json'' (urljoin [BASE_URL, ''regions'', ''root.json'']),
               Sleep (1/2),
               Write ''data/results/info.json''
                 (Json (NodeInfo ''Barangay'' []
                          [Precinct ''1'' [VB ''r1''], Precinct ''2'' []])),
               Fetch ''data/results/1.json'' (urljoin [BASE_URL, ''results'', ''r1.json''])]"
    for h
    by code_simp
  have c: "fst (main ''data'' (1/2) ''INFO'' n violation_behind_retry h no_files) = None"
    for n h
  proof (cases n)
    case 0
    then show ?thesis by (simp add: main_def)
  next
    case n: (Suc m)
    show ?thesis
    proof (cases m)
      case 0
      with n show ?thesis by (simp add: main_def)
    next
      case (Suc k)
      let ?info = "NodeInfo ''Barangay'' [] [Precinct ''1'' [VB ''r1''], Precinct ''2'' []]"
      let ?s1 = "emit (Write ''data/results/info.json'' (Json ?info))
                   ((emit (Sleep (1/2))
                      (emit (Fetch ''data/results/info.json''
                               (urljoin [BASE_URL, ''regions'', ''root.json''])) no_files))
                    \<lparr>fs := [''data/results/info.json'' \<mapsto> Json ?info]\<rparr>)"
      let ?s2 = "emit (Write ''data/results/1.json'' (Json (Results [Row ''X''])))
                   ((emit (Sleep (1/2))
                      (emit (Fetch ''data/results/1.json''
                               (urljoin [BASE_URL, ''results'', ''r1.json''])) ?s1))
                    \<lparr>fs := [''data/results/info.json'' \<mapsto> Json ?info,
                             ''data/results/1.json'' \<mapsto> Json (Results [Row ''X''])]\<rparr>)"
      have p0: "path_join BASE_DIR [''results'', [], ''info.json''] = ''data/results/info.json''"
        and p1: "path_join BASE_DIR [''results'', [], ''1.json''] = ''data/results/1.json''"
        by (simp_all add: path_join_def join_step_def BASE_DIR_def)
      have info: "load_retrying (Suc k) violation_behind_retry ''data/results/info.json''
                    (urljoin [BASE_URL, ''regions'', ''root.json'']) (1/2) no_files
                    = (Some (Inr ?info), ?s1)"
        by (simp add: load_or_download_def violation_behind_retry_def no_files_def
              requests_made_def emit_def replace_def Let_def)
      have ret: "load_or_download violation_behind_retry ''data/results/1.json''
                   (urljoin [BASE_URL, ''results'', ''r1.json'']) (1/2) ?s1
                   = (Inr (Results [Row ''X'']), ?s2)"
        by (simp add: load_or_download_def violation_behind_retry_def no_files_def
              requests_made_def emit_def replace_def Let_def BASE_URL_def)
      have absent: "fs ?s2 (contest_path ''X'') = None"
        by (simp add: emit_def contest_path_def path_join_def join_step_def BASE_DIR_def)
      have never: "\<forall>j. violation_behind_retry j (contest_url ''X'') = Response NotJson"
        by (simp add: violation_behind_retry_def contest_url_def BASE_URL_def)
      have "fst (load_retrying (Suc k) violation_behind_retry (contest_path ''X'')
                   (contest_url ''X'') (1/2) ?s2) = None"
        using absent never by (rule load_retrying_never_published)
      then obtain t where
        "load_retrying (Suc k) violation_behind_retry (contest_path ''X'')
           (contest_url ''X'') (1/2) ?s2 = (None, t)"
        by (metis prod.collapse)
      then have contest: "download_contest (Suc k) violation_behind_retry (1/2) ''X'' ?s2
                            = (None, t)"
        by (simp add: download_contest_def)
      have "download_precinct (Suc k) violation_behind_retry h [] (1/2)
              (Precinct ''1'' [VB ''r1'']) ?s1 = (None, t)"
        using ret contest
        by (simp add: download_precinct_def p1 iterate_set_single del: load_retrying.simps)
      then have "terminal_data (Suc k) violation_behind_retry h [] (1/2) ''Barangay''
                   [Precinct ''1'' [VB ''r1''], Precinct ''2'' []] ?s1 = (None, t)"
        by (simp add: terminal_data_def)
      then show ?thesis
        using n Suc info by (simp add: main_def p0 del: load_retrying.simps)
    qed
  qed
  show ?thesis using a b c by blast
qed

text \<open>
  C7, amended. At every node visited, once the descriptor has been resolved, the
  traversal fails with \<open>AssertionError\<close> as soon as it reaches a broken invariant, and
  stops there: the state returned is the state at the failed assertion.
  \<^item> At a node that is neither \<^verbatim>\<open>Barangay\<close> nor \<^verbatim>\<open>Country\<close>, with two or more
    terminal-data references or with one that does not hold exactly one voting-board
    reference, the visit fails as soon as the children have been visited without an
    exception, before any effect of the terminal-data stage.
  \<^item> At a \<^verbatim>\<open>Barangay\<close> or \<^verbatim>\<open>Country\<close> node, a reference \<open>p\<close> that does not hold
    exactly one voting-board reference makes the visit fail as soon as the children have
    been visited and the references \<open>before\<close> it handled without an exception: nothing
    of \<open>p\<close> or of the references \<open>after\<close> it is requested, read or written.
  \<^item> An \<open>AssertionError\<close> raised while a child is visited ends the visit of the parent
    with \<open>AssertionError\<close>, in the state the child left.
  \<^item> \<open>AssertionError\<close> is not caught by \<^verbatim>\<open>except ValueError\<close>: no retry loop and no
    skipping handler absorbs it.
\<close>

theorem reached_violation_raises_AssertionError:
  assumes "load_retrying n sess (path_join BASE_DIR [''results'', node_dir, ''info.json''])
             (urljoin [BASE_URL, ''regions'', node_url]) download_delay s
             = (Some (Inr (NodeInfo c children ps)), s1)"
  shows
    "(for_each (\<lambda>ch. download_data n sess h
                       (path_join node_dir [replace CHR ''/'' CHR ''_'' (child_rn ch)])
                       (child_url ch @ ''.json'') download_delay) children s1
        = (Some (Inr ()), s2)
      \<and> c \<noteq> ''Barangay'' \<and> c \<noteq> ''Country''
      \<and> (2 \<le> length ps \<or> (\<exists>p \<in> set ps. length (vbs p) \<noteq> 1))
      \<longrightarrow> download_data (Suc n) sess h node_dir node_url download_delay s
            = (Some (Inl AssertionError), s2))
     \<and> (for_each (\<lambda>ch. download_data n sess h
                       (path_join node_dir [replace CHR ''/'' CHR ''_'' (child_rn ch)])
                       (child_url ch @ ''.json'') download_delay) children s1
        = (Some (Inr ()), s2)
      \<and> (c = ''Barangay'' \<or> c = ''Country'')
      \<and> ps = before @ p # after \<and> length (vbs p) \<noteq> 1
      \<and> terminal_data n sess h node_dir download_delay c before s2 = (Some (Inr ()), s3)
      \<longrightarrow> download_data (Suc n) sess h node_dir node_url download_delay s
            = (Some (Inl AssertionError), s3))
     \<and> (for_each (\<lambda>ch. download_data n sess h
                       (path_join node_dir [replace CHR ''/'' CHR ''_'' (child_rn ch)])
                       (child_url ch @ ''.json'') download_delay) children s1
        = (Some (Inl AssertionError), t2)
      \<longrightarrow> download_data (Suc n) sess h node_dir node_url download_delay s
            = (Some (Inl AssertionError), t2))
     \<and> \<not> is_ValueError AssertionError"
proof -
  let ?visit = "\<lambda>ch. download_data n sess h
                       (path_join node_dir [replace CHR ''/'' CHR ''_'' (child_rn ch)])
                       (child_url ch @ ''.json'') download_delay"
  have first: "download_data (Suc n) sess h node_dir node_url download_delay s
                 = (Some (Inl AssertionError), s2)"
    if "for_each ?visit children s1 = (Some (Inr ()), s2)"
      and "c \<noteq> ''Barangay''" and "c \<noteq> ''Country''"
      and "2 \<le> length ps \<or> (\<exists>p \<in> set ps. length (vbs p) \<noteq> 1)"
  proof -
    have "terminal_data n sess h node_dir download_delay c ps s2
            = (Some (Inl AssertionError), s2)"
      using that(2,3,4) by (rule terminal_data_other_class)
    then show ?thesis using assms that(1) by simp
  qed
  have second: "download_data (Suc n) sess h node_dir node_url download_delay s
                  = (Some (Inl AssertionError), s3)"
    if "for_each ?visit children s1 = (Some (Inr ()), s2)"
      and "c = ''Barangay'' \<or> c = ''Country''"
      and "ps = before @ p # after" and "length (vbs p) \<noteq> 1"
      and "terminal_data n sess h node_dir download_delay c before s2 = (Some (Inr ()), s3)"
  proof -
    have "terminal_data n sess h node_dir download_delay c ps s2
            = (Some (Inl AssertionError), s3)"
      using that(3,5) terminal_data_leaf_or_country [OF that(2,4)] by simp
    then show ?thesis using assms that(1) by simp
  qed
  have third: "download_data (Suc n) sess h node_dir node_url download_delay s
                 = (Some (Inl AssertionError), t2)"
    if "for_each ?visit children s1 = (Some (Inl AssertionError), t2)"
    using assms that by (rule child_error_ends_parent)
  show ?thesis using first second third by simp
qed

theorem reached_violation_raises_AssertionError_witness:
  "(load_retrying 2 violation_in_child (path_join BASE_DIR [''results'', ''A'', ''info.json''])
      (urljoin [BASE_URL, ''regions'', ''a.json'']) (1/2) no_files
      = (Some (Inr (NodeInfo ''Region'' []
                      [Precinct ''n1'' [VB ''c1''], Precinct ''n2'' [VB ''c2'']])),
         snd (load_retrying 2 violation_in_child
                (path_join BASE_DIR [''results'', ''A'', ''info.json''])
                (urljoin [BASE_URL, ''regions'', ''a.json'']) (1/2) no_files))
    \<and> ''Region'' \<noteq> ''Barangay'' \<and> ''Region'' \<noteq> ''Country''
    \<and> 2 \<le> length [Precinct ''n1'' [VB ''c1''], Precinct ''n2'' [VB ''c2'']]
    \<and> fst (download_data 3 violation_in_child as_added ''A'' ''a.json'' (1/2) no_files)
        = Some (Inl AssertionError)
    \<and> log (snd (download_data 3 violation_in_child as_added ''A'' ''a.json'' (1/2) no_files))
        = [Fetch ''data/results/A/info.json'' (urljoin [BASE_URL, ''regions'', ''a.json'']),
           Sleep (1/2),
           Write ''data/results/A/info.json''
             (Json (NodeInfo ''Region'' []
                      [Precinct ''n1'' [VB ''c1''], Precinct ''n2'' [VB ''c2'']]))])
   \<and> (load_retrying 2 malformed_country (path_join BASE_DIR [''results'', [], ''info.json''])
         (urljoin [BASE_URL, ''regions'', ''root.json'']) (1/2) no_files
         = (Some (Inr (NodeInfo ''Country'' []
                         [Precinct ''n1'' [VB ''c1''], Precinct ''n2'' []])),
            snd (load_retrying 2 malformed_country
                   (path_join BASE_DIR [''results'', [], ''info.json''])
                   (urljoin [BASE_URL, ''regions'', ''root.json'']) (1/2) no_files))
       \<and> length (vbs (Precinct ''n2'' [])) \<noteq> 1
       \<and> fst (terminal_data 2 malformed_country as_added [] (1/2) ''Country''
                 [Precinct ''n1'' [VB ''c1'']]
                 (snd (load_retrying 2 malformed_country
                         (path_join BASE_DIR [''results'', [], ''info.json''])
                         (urljoin [BASE_URL, ''regions'', ''root.json'']) (1/2) no_files)))
           = Some (Inr ())
       \<and> fst (download_data 3 malformed_country as_added [] ''root.json'' (1/2) no_files)
           = Some (Inl AssertionError)
       \<and> log (snd (download_data 3 malformed_country as_added [] ''root.json'' (1/2) no_files))
           = [Fetch ''data/results/info.json'' (urljoin [BASE_URL, ''regions'', ''root.json'']),
              Sleep (1/2),
              Write ''data/results/info.json''
                (Json (NodeInfo ''Country'' []
                         [Precinct ''n1'' [VB ''c1''], Precinct ''n2'' []])),
              Fetch ''data/results/coc.json'' (urljoin [BASE_URL, ''results'', ''c1.json'']),
              Sleep (1/2),
              Write ''data/results/coc.json'' (Json (Document ''one''))])
   \<and> (load_retrying 2 violation_in_child (path_join BASE_DIR [''results'', [], ''info.json''])
         (urljoin [BASE_URL, ''regions'', ''root.json'']) (1/2) no_files
         = (Some (Inr (NodeInfo ''Country'' [Child ''A'' ''a''] [])),
            snd (load_retrying 2 violation_in_child
                   (path_join BASE_DIR [''results'', [], ''info.json''])
                   (urljoin [BASE_URL, ''regions'', ''root.json'']) (1/2) no_files))
       \<and> fst (for_each (\<lambda>ch. download_data 2 violation_in_child as_added
                                (path_join [] [replace CHR ''/'' CHR ''_'' (child_rn ch)])
                                (child_url ch @ ''.json'') (1/2))
                 [Child ''A'' ''a'']
                 (snd (load_retrying 2 violation_in_child
                         (path_join BASE_DIR [''results'', [], ''info.json''])
                         (urljoin [BASE_URL, ''regions'', ''root.json'']) (1/2) no_files)))
           = Some (Inl AssertionError)
       \<and> fst (download_data 3 violation_in_child as_added [] ''root.json'' (1/2) no_files)
           = Some (Inl AssertionError)
       \<and> log (snd (download_data 3 violation_in_child as_added [] ''root.json'' (1/2) no_files))
           = [Fetch ''data/results/info.json'' (urljoin [BASE_URL, ''regions'', ''root.json'']),
              Sleep (1/2),
              Write ''data/results/info.json'' (Json (NodeInfo ''Country'' [Child ''A'' ''a''] [])),
              Fetch ''data/results/A/info.json'' (urljoin [BASE_URL, ''regions'', ''a.json'']),
              Sleep (1/2),
              Write ''data/results/A/info.json''
                (Json (NodeInfo ''Region'' []
                         [Precinct ''n1'' [VB ''c1''], Precinct ''n2'' [VB ''c2'']]))])"
proof -
  let ?two = "[Precinct ''n1'' [VB ''c1''], Precinct ''n2'' [VB ''c2'']]"
  let ?visit = "\<lambda>node_dir ch. download_data 2 violation_in_child as_added
                  (path_join node_dir [replace CHR ''/'' CHR ''_'' (child_rn ch)])
                  (child_url ch @ ''.json'') (1/2)"
  let ?sA = "snd (load_retrying 2 violation_in_child
                (path_join BASE_DIR [''results'', ''A'', ''info.json''])
                (urljoin [BASE_URL, ''regions'', ''a.json'']) (1/2) no_files)"
  have "fst (load_retrying 2 violation_in_child
               (path_join BASE_DIR [''results'', ''A'', ''info.json''])
               (urljoin [BASE_URL, ''regions'', ''a.json'']) (1/2) no_files)
          = Some (Inr (NodeInfo ''Region'' [] ?two))"
    by code_simp
  then have dA: "load_retrying 2 violation_in_child
                   (path_join BASE_DIR [''results'', ''A'', ''info.json''])
                   (urljoin [BASE_URL, ''regions'', ''a.json'']) (1/2) no_files
                   = (Some (Inr (NodeInfo ''Region'' [] ?two)), ?sA)"
    by (simp add: prod_eq_iff)
  have cA: "for_each (?visit ''A'') [] ?sA = (Some (Inr ()), ?sA)"
    by simp
  have lA: "log ?sA
              = [Fetch ''data/results/A/info.json'' (urljoin [BASE_URL, ''regions'', ''a.json'']),
                 Sleep (1/2),
                 Write ''data/results/A/info.json'' (Json (NodeInfo ''Region'' [] ?two))]"
    by code_simp
  have A: "download_data 3 violation_in_child as_added ''A'' ''a.json'' (1/2) no_files
             = (Some (Inl AssertionError), ?sA)"
    using reached_violation_raises_AssertionError
      [where n = 2 and sess = violation_in_child and node_dir = "''A''"
         and node_url = "''a.json''" and download_delay = "1/2" and s = no_files
         and c = "''Region''" and children = "[]" and ps = ?two and ?s1.0 = ?sA
         and h = as_added and ?s2.0 = ?sA, OF dA]
      cA
    by (simp add: numeral_3_eq_3)
  let ?sC = "snd (load_retrying 2 malformed_country
                (path_join BASE_DIR [''results'', [], ''info.json''])
                (urljoin [BASE_URL, ''regions'', ''root.json'']) (1/2) no_files)"
  let ?tC = "snd (terminal_data 2 malformed_country as_added [] (1/2) ''Country''
                    [Precinct ''n1'' [VB ''c1'']] ?sC)"
  have "fst (load_retrying 2 malformed_country
               (path_join BASE_DIR [''results'', [], ''info.json''])
               (urljoin [BASE_URL, ''regions'', ''root.json'']) (1/2) no_files)
          = Some (Inr (NodeInfo ''Country'' [] [Precinct ''n1'' [VB ''c1''], Precinct ''n2'' []]))"
    by code_simp
  then have dC: "load_retrying 2 malformed_country
                   (path_join BASE_DIR [''results'', [], ''info.json''])
                   (urljoin [BASE_URL, ''regions'', ''root.json'']) (1/2) no_files
                   = (Some (Inr (NodeInfo ''Country'' []
                                   [Precinct ''n1'' [VB ''c1''], Precinct ''n2'' []])), ?sC)"
    by (simp add: prod_eq_iff)
  have cC: "for_each (\<lambda>ch. download_data 2 malformed_country as_added
                             (path_join [] [replace CHR ''/'' CHR ''_'' (child_rn ch)])
                             (child_url ch @ ''.json'') (1/2)) [] ?sC = (Some (Inr ()), ?sC)"
    by simp
  have fC: "fst (terminal_data 2 malformed_country as_added [] (1/2) ''Country''
                   [Precinct ''n1'' [VB ''c1'']] ?sC) = Some (Inr ())"
    by code_simp
  then have bC: "terminal_data 2 malformed_country as_added [] (1/2) ''Country''
                   [Precinct ''n1'' [VB ''c1'']] ?sC = (Some (Inr ()), ?tC)"
    by (simp add: prod_eq_iff)
  have lC: "log ?tC
              = [Fetch ''data/results/info.json'' (urljoin [BASE_URL, ''regions'', ''root.json'']),
                 Sleep (1/2),
                 Write ''data/results/info.json''
                   (Json (NodeInfo ''Country'' []
                            [Precinct ''n1'' [VB ''c1''], Precinct ''n2'' []])),
                 Fetch ''data/results/coc.json'' (urljoin [BASE_URL, ''results'', ''c1.json'']),
                 Sleep (1/2),
                 Write ''data/results/coc.json'' (Json (Document ''one''))]"
    by code_simp
  have C: "download_data 3 malformed_country as_added [] ''root.json'' (1/2) no_files
             = (Some (Inl AssertionError), ?tC)"
    using reached_violation_raises_AssertionError
      [where n = 2 and sess = malformed_country and node_dir = "[]"
         and node_url = "''root.json''" and download_delay = "1/2" and s = no_files
         and c = "''Country''" and children = "[]"
         and ps = "[Precinct ''n1'' [VB ''c1''], Precinct ''n2'' []]" and ?s1.0 = ?sC
         and h = as_added and ?s2.0 = ?sC and before = "[Precinct ''n1'' [VB ''c1'']]"
         and p = "Precinct ''n2'' []" and after = "[]" and ?s3.0 = ?tC, OF dC]
      cC bC
    by (simp add: numeral_3_eq_3)
  let ?sR = "snd (load_retrying 2 violation_in_child
                (path_join BASE_DIR [''results'', [], ''info.json''])
                (urljoin [BASE_URL, ''regions'', ''root.json'']) (1/2) no_files)"
  let ?tR = "snd (for_each (?visit []) [Child ''A'' ''a''] ?sR)"
  have "fst (load_retrying 2 violation_in_child
               (path_join BASE_DIR [''results'', [], ''info.json''])
               (urljoin [BASE_URL, ''regions'', ''root.json'']) (1/2) no_files)
          = Some (Inr (NodeInfo ''Country'' [Child ''A'' ''a''] []))"
    by code_simp
  then have dR: "load_retrying 2 violation_in_child
                   (path_join BASE_DIR [''results'', [], ''info.json''])
                   (urljoin [BASE_URL, ''regions'', ''root.json'']) (1/2) no_files
                   = (Some (Inr (NodeInfo ''Country'' [Child ''A'' ''a''] [])), ?sR)"
    by (simp add: prod_eq_iff)
  have fR: "fst (for_each (?visit []) [Child ''A'' ''a''] ?sR) = Some (Inl AssertionError)"
    by code_simp
  then have cR: "for_each (?visit []) [Child ''A'' ''a''] ?sR = (Some (Inl AssertionError), ?tR)"
    by (simp add: prod_eq_iff)
  have lR: "log ?tR
              = [Fetch ''data/results/info.json'' (urljoin [BASE_URL, ''regions'', ''root.json'']),
                 Sleep (1/2),
                 Write ''data/results/info.json''
                   (Json (NodeInfo ''Country'' [Child ''A'' ''a''] [])),
                 Fetch ''data/results/A/info.json'' (urljoin [BASE_URL, ''regions'', ''a.json'']),
                 Sleep (1/2),
                 Write ''data/results/A/info.json'' (Json (NodeInfo ''Region'' [] ?two))]"
    by code_simp
  have R: "download_data 3 violation_in_child as_added [] ''root.json'' (1/2) no_files
             = (Some (Inl AssertionError), ?tR)"
    using reached_violation_raises_AssertionError
      [where n = 2 and sess = violation_in_child and node_dir = "[]"
         and node_url = "''root.json''" and download_delay = "1/2" and s = no_files
         and c = "''Country''" and children = "[Child ''A'' ''a'']" and ps = "[]"
         and ?s1.0 = ?sR and h = as_added and ?t2.0 = ?tR, OF dR]
      cR
    by (simp add: numeral_3_eq_3)
  show ?thesis
    apply (intro conjI)
    using dA apply simp
    apply simp
    apply simp
    apply simp
    using A apply simp
    using A lA apply simp
    using dC apply simp
    apply simp
    using fC apply simp
    using C apply simp
    using C lC apply simp
    using dR apply simp
    using fR apply simp
    using R apply simp
    using R lR apply simp
    done
qed

section \<open>Files that are there are not fetched again\<close>

text \<open>
  C1, evaluated where the code departs from it. The claim has a second run after a
  complete run issue no request. On \<open>star_upstream\<close> the precinct code is \<^verbatim>\<open>1*\<close>:
  the first run, from empty storage, returns normally and leaves the return in
  \<^verbatim>\<open>data/results/1_.json\<close>; the second run, on the storage the first one left, looks for
  \<^verbatim>\<open>data/results/1*.json\<close>, does not find it, and requests and writes the return again.
  The order of set iteration, \<open>h\<close> in the first run and \<open>h'\<close> in the second, plays
  no part. (Where no path holds a \<^verbatim>\<open>*\<close> and the delay is not negative the claim
  holds: \<open>second_run_only_reads\<close>, \<open>present_files_unchanged\<close> and
  \<open>present_file_is_not_fetched\<close> below.)
\<close>

theorem second_run_fetches_starred_file_again:
  "fst (main ''data'' (1/2) ''INFO'' 3 star_upstream h no_files) = Some (Inr ())
   \<and> fst (main ''data'' (1/2) ''INFO'' 3 star_upstream h'
            (snd (main ''data'' (1/2) ''INFO'' 3 star_upstream h no_files))) = Some (Inr ())
   \<and> log (snd (main ''data'' (1/2) ''INFO'' 3 star_upstream h'
            (snd (main ''data'' (1/2) ''INFO'' 3 star_upstream h no_files))))
      = log (snd (main ''data'' (1/2) ''INFO'' 3 star_upstream h no_files))
        @ [Load ''data/results/info.json'',
           Fetch ''data/results/1*.json'' (urljoin [BASE_URL, ''results'', ''r.json'']),
           Sleep (1/2),
           Write ''data/results/1_.json'' (Json (Results []))]"
  by code_simp

subsection \<open>Certificates of canvass\<close>

lemma replace_absent: "old \<notin> set str \<Longrightarrow> replace old new str = str"
  by (induction str) (auto simp: replace_def)

lemma set_join_step: "set (join_step a b) \<subseteq> set a \<union> set b \<union> {CHR ''/''}"
  by (auto simp: join_step_def)

lemma set_path_join: "set (path_join a bs) \<subseteq> set a \<union> \<Union> (set ` set bs) \<union> {CHR ''/''}"
proof (induction bs arbitrary: a)
  case Nil
  show ?case by (auto simp: path_join_def)
next
  case (Cons b bs)
  have "set (path_join (join_step a b) bs)
          \<subseteq> set (join_step a b) \<union> \<Union> (set ` set bs) \<union> {CHR ''/''}"
    using Cons.IH [of "join_step a b"] .
  with set_join_step [of a b] show ?case
    by (auto simp: path_join_def)
qed

lemma coc_path_no_star:
  assumes "CHR ''*'' \<notin> set node_dir"
  shows "CHR ''*'' \<notin> set (path_join BASE_DIR [''results'', node_dir, ''coc.json''])"
proof
  assume "CHR ''*'' \<in> set (path_join BASE_DIR [''results'', node_dir, ''coc.json''])"
  with set_path_join [of BASE_DIR "[''results'', node_dir, ''coc.json'']"]
  have "CHR ''*'' \<in> set BASE_DIR \<union> \<Union> (set ` set [''results'', node_dir, ''coc.json''])
          \<union> {CHR ''/''}"
    by blast
  with assms show False by (simp add: BASE_DIR_def)
qed

lemma resolved_file_present:
  assumes "CHR ''*'' \<notin> set file_path"
    and "load_or_download sess file_path url download_delay s = (Inr data, s1)"
  shows "fs s1 file_path = Some (Json data)"
  using assms
  by (auto simp: load_or_download_def emit_def Let_def replace_absent
           split: option.splits content.splits response.splits if_splits)

lemma download_coc_cached:
  assumes "fs s (path_join BASE_DIR [''results'', node_dir, ''coc.json'']) = Some text"
    and "length (vbs q) = 1"
  shows "download_coc sess node_dir download_delay q s
           = (Some (Inr ()), emit (Load (path_join BASE_DIR [''results'', node_dir, ''coc.json''])) s)"
proof -
  from assms(2) obtain v where "vbs q = [v]"
    by (cases "vbs q" rule: remdups_adj.cases) auto
  with assms(1) show ?thesis
    by (cases "text") (simp_all add: download_coc_def load_or_download_def)
qed

lemma for_each_coc_cached:
  assumes "fs s (path_join BASE_DIR [''results'', node_dir, ''coc.json'']) = Some text"
    and "\<forall>q \<in> set qs. length (vbs q) = 1"
  shows "for_each (download_coc sess node_dir download_delay) qs s
           = (Some (Inr ()),
              s\<lparr>log := log s @ replicate (length qs)
                          (Load (path_join BASE_DIR [''results'', node_dir, ''coc.json'']))\<rparr>)"
  using assms
proof (induction qs arbitrary: s)
  case Nil
  show ?case by simp
next
  case (Cons q qs)
  let ?p = "path_join BASE_DIR [''results'', node_dir, ''coc.json'']"
  have step: "download_coc sess node_dir download_delay q s = (Some (Inr ()), emit (Load ?p) s)"
    using Cons.prems by (simp add: download_coc_cached)
  have "fs (emit (Load ?p) s) ?p = Some text"
    using Cons.prems(1) by (simp add: emit_def)
  then have "for_each (download_coc sess node_dir download_delay) qs (emit (Load ?p) s)
           = (Some (Inr ()),
              (emit (Load ?p) s)\<lparr>log := log (emit (Load ?p) s) @ replicate (length qs) (Load ?p)\<rparr>)"
    using Cons.prems(2) by (intro Cons.IH) auto
  with step show ?case
    by (simp add: emit_def replicate_app_Cons_same)
qed

text \<open>
  C10, amended. At a node that is not a barangay every terminal-data reference is looked up
  under the one path \<^verbatim>\<open>results/<node>/coc.json\<close>. At a \<^verbatim>\<open>Country\<close> node whose storage
  path holds no \<^verbatim>\<open>*\<close>: once a reference \<open>p\<close> has been resolved (its payload fetched and
  written, or read from a file that was there), the file is there, and every reference
  \<open>after\<close> it that holds exactly one voting-board reference is answered by a read of that
  file: the stage returns normally, the files are those left by \<open>p\<close>, and the log gains
  one read per reference and no request and no write.
\<close>

theorem certificates_share_one_file:
  assumes "CHR ''*'' \<notin> set node_dir"
    and "vbs p = [v]"
    and "load_or_download sess (path_join BASE_DIR [''results'', node_dir, ''coc.json''])
           (urljoin [BASE_URL, ''results'', vb_url v @ ''.json'']) download_delay s
           = (Inr data, s1)"
    and "\<forall>q \<in> set after. length (vbs q) = 1"
  shows "terminal_data n sess h node_dir download_delay ''Country'' (p # after) s
           = (Some (Inr ()),
              s1\<lparr>log := log s1 @ replicate (length after)
                           (Load (path_join BASE_DIR [''results'', node_dir, ''coc.json'']))\<rparr>)
         \<and> fs s1 (path_join BASE_DIR [''results'', node_dir, ''coc.json'']) = Some (Json data)"
proof -
  let ?p = "path_join BASE_DIR [''results'', node_dir, ''coc.json'']"
  have present: "fs s1 ?p = Some (Json data)"
    using coc_path_no_star [OF assms(1)] assms(3) by (rule resolved_file_present)
  have first: "download_coc sess node_dir download_delay p s = (Some (Inr ()), s1)"
    using assms(2,3) by (simp add: download_coc_def)
  have rest: "for_each (download_coc sess node_dir download_delay) after s1
                = (Some (Inr ()), s1\<lparr>log := log s1 @ replicate (length after) (Load ?p)\<rparr>)"
    using present assms(4) by (rule for_each_coc_cached)
  show ?thesis
    using first rest present by (simp add: terminal_data_def)
qed

theorem certificates_share_one_file_witness:
  "CHR ''*'' \<notin> set ''A''
   \<and> vbs (Precinct ''n1'' [VB ''c1'']) = [VB ''c1'']
   \<and> load_or_download starred_country (path_join BASE_DIR [''results'', ''A'', ''coc.json''])
         (urljoin [BASE_URL, ''results'', vb_url (VB ''c1'') @ ''.json'']) (1/2) no_files
       = (Inr (Document ''one''),
          snd (load_or_download starred_country
                 (path_join BASE_DIR [''results'', ''A'', ''coc.json''])
                 (urljoin [BASE_URL, ''results'', vb_url (VB ''c1'') @ ''.json'']) (1/2) no_files))
   \<and> \<not> (\<exists>q \<in> set [Precinct ''n2'' [VB ''c2'']]. length (vbs q) \<noteq> 1)
   \<and> fst (terminal_data 1 starred_country as_added ''A'' (1/2) ''Country''
            [Precinct ''n1'' [VB ''c1''], Precinct ''n2'' [VB ''c2'']] no_files) = Some (Inr ())
   \<and> log (snd (terminal_data 1 starred_country as_added ''A'' (1/2) ''Country''
            [Precinct ''n1'' [VB ''c1''], Precinct ''n2'' [VB ''c2'']] no_files))
       = [Fetch ''data/results/A/coc.json'' (urljoin [BASE_URL, ''results'', ''c1.json'']),
          Sleep (1/2),
          Write ''data/results/A/coc.json'' (Json (Document ''one'')),
          Load ''data/results/A/coc.json'']"
proof -
  let ?s1 = "snd (load_or_download starred_country
                 (path_join BASE_DIR [''results'', ''A'', ''coc.json''])
                 (urljoin [BASE_URL, ''results'', vb_url (VB ''c1'') @ ''.json'']) (1/2) no_files)"
  have r: "fst (load_or_download starred_country
                 (path_join BASE_DIR [''results'', ''A'', ''coc.json''])
                 (urljoin [BASE_URL, ''results'', vb_url (VB ''c1'') @ ''.json'']) (1/2) no_files)
             = Inr (Document ''one'')"
    by code_simp
  have l: "log ?s1
             = [Fetch ''data/results/A/coc.json'' (urljoin [BASE_URL, ''results'', ''c1.json'']),
                Sleep (1/2),
                Write ''data/results/A/coc.json'' (Json (Document ''one''))]"
    by code_simp
  have p: "path_join BASE_DIR [''results'', ''A'', ''coc.json''] = ''data/results/A/coc.json''"
    by code_simp
  have lod: "load_or_download starred_country (path_join BASE_DIR [''results'', ''A'', ''coc.json''])
         (urljoin [BASE_URL, ''results'', vb_url (VB ''c1'') @ ''.json'']) (1/2) no_files
       = (Inr (Document ''one''), ?s1)"
    using r by (simp add: prod_eq_iff)
  have "terminal_data 1 starred_country as_added ''A'' (1/2) ''Country''
            (Precinct ''n1'' [VB ''c1''] # [Precinct ''n2'' [VB ''c2'']]) no_files
           = (Some (Inr ()),
              ?s1\<lparr>log := log ?s1 @ replicate (length [Precinct ''n2'' [VB ''c2'']])
                           (Load (path_join BASE_DIR [''results'', ''A'', ''coc.json'']))\<rparr>)"
    using certificates_share_one_file
      [of "''A''" "Precinct ''n1'' [VB ''c1'']" "VB ''c1''" starred_country "1/2" no_files
          "Document ''one''" ?s1 "[Precinct ''n2'' [VB ''c2'']]" 1]
      lod
    by simp
  then show ?thesis
    using lod l p by simp
qed

text \<open>
  C10, as stated, fails at two inputs. Under the node name \<^verbatim>\<open>A*\<close> the certificate is
  looked up at \<^verbatim>\<open>data/results/A*/coc.json\<close> and written to
  \<^verbatim>\<open>data/results/A_/coc.json\<close>, so the second reference is requested as well and its
  payload replaces the first. And a later reference without a voting-board reference is not
  answered from the file: the run ends with \<open>AssertionError\<close>.
\<close>

theorem starred_country_fetches_every_certificate:
  "\<forall>h.
     log (snd (main ''data'' (1/2) ''INFO'' 4 starred_country h no_files))
     = [Fetch ''data/results/info.json'' (urljoin [BASE_URL, ''regions'', ''root.json'']),
        Sleep (1/2),
        Write ''data/results/info.json'' (Json (NodeInfo ''World'' [Child ''A*'' ''a''] [])),
        Fetch ''data/results/A*/info.json'' (urljoin [BASE_URL, ''regions'', ''a.json'']),
        Sleep (1/2),
        Write ''data/results/A_/info.json''
          (Json (NodeInfo ''Country'' []
                   [Precinct ''n1'' [VB ''c1''], Precinct ''n2'' [VB ''c2'']])),
        Fetch ''data/results/A*/coc.json'' (urljoin [BASE_URL, ''results'', ''c1.json'']),
        Sleep (1/2),
        Write ''data/results/A_/coc.json'' (Json (Document ''one'')),
        Fetch ''data/results/A*/coc.json'' (urljoin [BASE_URL, ''results'', ''c2.json'']),
        Sleep (1/2),
        Write ''data/results/A_/coc.json'' (Json (Document ''two''))]
   \<and> fst (main ''data'' (1/2) ''INFO'' 4 malformed_country h no_files) = Some (Inl AssertionError)
   \<and> log (snd (main ''data'' (1/2) ''INFO'' 4 malformed_country h no_files))
     = [Fetch ''data/results/info.json'' (urljoin [BASE_URL, ''regions'', ''root.json'']),
        Sleep (1/2),
        Write ''data/results/info.json''
          (Json (NodeInfo ''Country'' [] [Precinct ''n1'' [VB ''c1''], Precinct ''n2'' []])),
        Fetch ''data/results/coc.json'' (urljoin [BASE_URL, ''results'', ''c1.json'']),
        Sleep (1/2),
        Write ''data/results/coc.json'' (Json (Document ''one''))]"
  by (intro allI) code_simp

subsection \<open>What the whole traversal keeps\<close>

lemma keptD:
  assumes "kept sess d T"
  shows "T s s" and "T a b \<Longrightarrow> T b c \<Longrightarrow> T a c" and "T s (emit (Sleep t) s)"
    and "call_site p u \<Longrightarrow> T s (snd (load_or_download sess p u d s))"
  using assms unfolding kept_def by blast+

lemma kept_load_retrying:
  assumes "kept sess d T" and "call_site p u"
  shows "T s (snd (load_retrying n sess p u d s))"
proof (induction n arbitrary: s)
  case 0
  show ?case by (simp add: keptD(1) [OF assms(1)])
next
  case (Suc n)
  obtain r s1 where lod: "load_or_download sess p u d s = (r, s1)"
    by (cases "load_or_download sess p u d s")
  have a: "T s s1"
    using keptD(4) [OF assms, of s] lod by simp
  show ?case
  proof (cases r)
    case (Inr data)
    with lod a show ?thesis by simp
  next
    case (Inl e)
    show ?thesis
    proof (cases "is_ValueError e")
      case False
      with Inl lod a show ?thesis by simp
    next
      case True
      have "T s1 (emit (Sleep RETRY_WAIT) s1)"
        by (rule keptD(3) [OF assms(1)])
      with a have "T s (emit (Sleep RETRY_WAIT) s1)"
        by (rule keptD(2) [OF assms(1)])
      then have "T s (snd (load_retrying n sess p u d (emit (Sleep RETRY_WAIT) s1)))"
        using Suc.IH by (rule keptD(2) [OF assms(1)])
      with True Inl lod show ?thesis by simp
    qed
  qed
qed

lemma kept_for_each:
  assumes "kept sess d T" and "\<And>x s. x \<in> set xs \<Longrightarrow> T s (snd (body x s))"
  shows "T s (snd (for_each body xs s))"
  using assms(2)
proof (induction xs arbitrary: s)
  case Nil
  show ?case by (simp add: keptD(1) [OF assms(1)])
next
  case (Cons x xs)
  obtain r s1 where b: "body x s = (r, s1)" by (cases "body x s")
  have a: "T s s1" using Cons.prems [of x s] b by simp
  show ?case
  proof (cases r)
    case None
    with b a show ?thesis by simp
  next
    case (Some v)
    show ?thesis
    proof (cases v)
      case (Inl e)
      with Some b a show ?thesis by simp
    next
      case (Inr u)
      have "T s1 (snd (for_each body xs s1))"
        by (rule Cons.IH) (simp add: Cons.prems)
      with a have "T s (snd (for_each body xs s1))"
        by (rule keptD(2) [OF assms(1)])
      with Inr Some b show ?thesis by simp
    qed
  qed
qed

lemma kept_download_contest:
  assumes "kept sess d T"
  shows "T s (snd (download_contest n sess d contest s))"
proof -
  have "T s (snd (load_retrying n sess (contest_path contest) (contest_url contest) d s))"
    using assms call_site.contest by (rule kept_load_retrying)
  then show ?thesis
    by (auto simp: download_contest_def split: prod.split option.split sum.split)
qed

lemma kept_download_precinct:
  assumes "kept sess d T"
  shows "T s (snd (download_precinct n sess h node_dir d p s))"
proof (cases "vbs p" rule: remdups_adj.cases)
  case 1
  then show ?thesis by (simp add: download_precinct_def keptD(1) [OF assms])
next
  case (3 v w ws)
  then show ?thesis by (simp add: download_precinct_def keptD(1) [OF assms])
next
  case (2 v)
  let ?path = "path_join BASE_DIR [''results'', node_dir, ppcc p @ ''.json'']"
  let ?url = "urljoin [BASE_URL, ''results'', vb_url v @ ''.json'']"
  obtain r s1 where lod: "load_or_download sess ?path ?url d s = (r, s1)"
    by (cases "load_or_download sess ?path ?url d s")
  have a: "T s s1"
    using keptD(4) [OF assms call_site.precinct, of s node_dir "ppcc p" "vb_url v"] lod by simp
  show ?thesis
  proof (cases r)
    case (Inl e)
    with 2 lod a show ?thesis by (simp add: download_precinct_def)
  next
    case (Inr data)
    show ?thesis
    proof (cases data)
      case (Results rows)
      have "T s1 (snd (for_each (download_contest n sess d) (iterate_set h (map cc rows)) s1))"
        using assms by (rule kept_for_each) (rule kept_download_contest [OF assms])
      with a have "T s (snd (for_each (download_contest n sess d) (iterate_set h (map cc rows)) s1))"
        by (rule keptD(2) [OF assms])
      with Results Inr 2 lod show ?thesis by (simp add: download_precinct_def)
    next
      case (NodeInfo c ch ps)
      with Inr 2 lod a show ?thesis by (simp add: download_precinct_def)
    next
      case (Document x)
      with Inr 2 lod a show ?thesis by (simp add: download_precinct_def)
    qed
  qed
qed

lemma kept_download_coc:
  assumes "kept sess d T"
  shows "T s (snd (download_coc sess node_dir d p s))"
proof (cases "vbs p" rule: remdups_adj.cases)
  case 1
  then show ?thesis by (simp add: download_coc_def keptD(1) [OF assms])
next
  case (3 v w ws)
  then show ?thesis by (simp add: download_coc_def keptD(1) [OF assms])
next
  case (2 v)
  let ?path = "path_join BASE_DIR [''results'', node_dir, ''coc.json'']"
  let ?url = "urljoin [BASE_URL, ''results'', vb_url v @ ''.json'']"
  obtain r s1 where lod: "load_or_download sess ?path ?url d s = (r, s1)"
    by (cases "load_or_download sess ?path ?url d s")
  have a: "T s s1"
    using keptD(4) [OF assms call_site.coc, of s node_dir "vb_url v"] lod by simp
  with 2 lod show ?thesis
    by (cases r) (simp_all add: download_coc_def)
qed

lemma kept_terminal_data:
  assumes "kept sess d T"
  shows "T s (snd (terminal_data n sess h node_dir d c ps s))"
proof -
  have a: "T s (snd (for_each (download_precinct n sess h node_dir d) ps s))"
    using assms by (rule kept_for_each) (rule kept_download_precinct [OF assms])
  have b: "T s (snd (for_each (download_coc sess node_dir d) ps s))"
    using assms by (rule kept_for_each) (rule kept_download_coc [OF assms])
  show ?thesis
    using a b by (simp add: terminal_data_def keptD(1) [OF assms])
qed

lemma kept_download_data:
  assumes "kept sess d T"
  shows "T s (snd (download_data n sess h node_dir node_url d s))"
proof (induction n arbitrary: s node_dir node_url)
  case 0
  show ?case by (simp add: keptD(1) [OF assms])
next
  case (Suc n)
  let ?path = "path_join BASE_DIR [''results'', node_dir, ''info.json'']"
  let ?url = "urljoin [BASE_URL, ''regions'', node_url]"
  obtain r s1 where lr: "load_retrying n sess ?path ?url d s = (r, s1)"
    by (cases "load_retrying n sess ?path ?url d s")
  have a: "T s s1"
    using kept_load_retrying [OF assms call_site.info, of s n node_dir node_url] lr by simp
  show ?case
  proof (cases r)
    case None
    with lr a show ?thesis by simp
  next
    case (Some v)
    show ?thesis
    proof (cases v)
      case (Inl e)
      with Some lr a show ?thesis by simp
    next
      case (Inr node_info)
      show ?thesis
      proof (cases node_info)
        case (Results rows)
        with Inr Some lr a show ?thesis by simp
      next
        case (Document x)
        with Inr Some lr a show ?thesis by simp
      next
        case (NodeInfo c children ps)
        let ?body = "\<lambda>ch. download_data n sess h
                             (path_join node_dir [replace CHR ''/'' CHR ''_'' (child_rn ch)])
                             (child_url ch @ ''.json'') d"
        obtain r2 s2 where fe: "for_each ?body children s1 = (r2, s2)"
          by (cases "for_each ?body children s1")
        have "T s1 (snd (for_each ?body children s1))"
          using assms by (rule kept_for_each) (rule Suc.IH)
        with fe a have b: "T s s2"
          using keptD(2) [OF assms] by auto
        have "T s2 (snd (terminal_data n sess h node_dir d c ps s2))"
          using assms by (rule kept_terminal_data)
        with b have t: "T s (snd (terminal_data n sess h node_dir d c ps s2))"
          by (rule keptD(2) [OF assms])
        show ?thesis
          using NodeInfo Inr Some lr fe b t
          by (simp split: option.split sum.split)
      qed
    qed
  qed
qed

lemma settled_refl: "settled p s s"
  by (simp add: settled_def)

lemma settled_trans:
  assumes "settled p a b" and "settled p b c"
  shows "settled p a c"
proof -
  from assms(1) obtain l where l: "log b = log a @ l"
    "fs a p \<noteq> None \<longrightarrow> fs b p \<noteq> None \<and> (\<forall>e \<in> set l. \<not> fetches p e)"
    "(\<exists>e \<in> set l. writes p e) \<longrightarrow> fs b p \<noteq> None"
    "\<forall>e \<in> set (dropWhile (\<lambda>e. \<not> writes p e) l). \<not> fetches p e"
    unfolding settled_def by blast
  from assms(2) obtain m where m: "log c = log b @ m"
    "fs b p \<noteq> None \<longrightarrow> fs c p \<noteq> None \<and> (\<forall>e \<in> set m. \<not> fetches p e)"
    "(\<exists>e \<in> set m. writes p e) \<longrightarrow> fs c p \<noteq> None"
    "\<forall>e \<in> set (dropWhile (\<lambda>e. \<not> writes p e) m). \<not> fetches p e"
    unfolding settled_def by blast
  have 1: "log c = log a @ (l @ m)" using l(1) m(1) by simp
  have 2: "fs a p \<noteq> None \<longrightarrow> fs c p \<noteq> None \<and> (\<forall>e \<in> set (l @ m). \<not> fetches p e)"
    using l(2) m(2) by auto
  have 3: "(\<exists>e \<in> set (l @ m). writes p e) \<longrightarrow> fs c p \<noteq> None"
    using l(3) m(2,3) by auto
  have 4: "\<forall>e \<in> set (dropWhile (\<lambda>e. \<not> writes p e) (l @ m)). \<not> fetches p e"
  proof (cases "\<forall>e \<in> set l. \<not> writes p e")
    case True
    then have "dropWhile (\<lambda>e. \<not> writes p e) (l @ m) = dropWhile (\<lambda>e. \<not> writes p e) m"
      by (simp add: dropWhile_append)
    with m(4) show ?thesis by simp
  next
    case False
    then have d: "dropWhile (\<lambda>e. \<not> writes p e) (l @ m) = dropWhile (\<lambda>e. \<not> writes p e) l @ m"
      by (auto simp: dropWhile_append)
    from False l(3) have "fs b p \<noteq> None" by blast
    with m(2) have "\<forall>e \<in> set m. \<not> fetches p e" by blast
    with l(4) d show ?thesis by auto
  qed
  show ?thesis
    unfolding settled_def using 1 2 3 4 by blast
qed

lemma settled_sleep: "settled p s (emit (Sleep t) s)"
  by (simp add: settled_def emit_def)

lemma settled_load_or_download: "settled p s (snd (load_or_download sess q u d s))"
proof (cases "fs s q")
  case (Some found)
  then show ?thesis
    by (cases found) (simp_all add: settled_def load_or_download_def emit_def)
next
  case None
  show ?thesis
  proof (cases "sess (requests_made (log s)) u")
    case ConnectionFailed
    with None show ?thesis
      by (auto simp: settled_def load_or_download_def emit_def)
  next
    case (Response body)
    show ?thesis
    proof (cases body)
      case NotJson
      with Response None show ?thesis
        by (auto simp: settled_def load_or_download_def emit_def)
    next
      case (Json data)
      with Response None show ?thesis
        by (auto simp: settled_def load_or_download_def emit_def Let_def)
    qed
  qed
qed

lemma kept_settled: "kept sess d (settled p)"
  unfolding kept_def
  using settled_refl settled_trans settled_sleep settled_load_or_download by blast

text \<open>
  In every run of \<^verbatim>\<open>download_data\<close>, a file that is there at the start stays, and
  nothing is requested for it.
\<close>

lemma present_file_is_not_fetched:
  assumes "fs s p \<noteq> None"
  shows "\<exists>l. log (snd (download_data n sess h node_dir node_url d s)) = log s @ l
            \<and> (\<forall>u. Fetch p u \<notin> set l)
            \<and> fs (snd (download_data n sess h node_dir node_url d s)) p \<noteq> None"
proof -
  have "settled p s (snd (download_data n sess h node_dir node_url d s))"
    using kept_settled by (rule kept_download_data)
  with assms obtain l where
    "log (snd (download_data n sess h node_dir node_url d s)) = log s @ l"
    "fs (snd (download_data n sess h node_dir node_url d s)) p \<noteq> None"
    "\<forall>e \<in> set l. \<not> fetches p e"
    unfolding settled_def by blast
  then show ?thesis by fastforce
qed

lemma kept_at_call_sites: "kept sess d at_call_sites"
proof -
  have 1: "at_call_sites s s" for s by (simp add: at_call_sites_def)
  have 2: "at_call_sites a c" if "at_call_sites a b" "at_call_sites b c" for a b c
  proof -
    from that obtain l m where "log b = log a @ l" "\<forall>p u. Fetch p u \<in> set l \<longrightarrow> call_site p u"
      "log c = log b @ m" "\<forall>p u. Fetch p u \<in> set m \<longrightarrow> call_site p u"
      unfolding at_call_sites_def by blast
    then have "log c = log a @ (l @ m) \<and> (\<forall>p u. Fetch p u \<in> set (l @ m) \<longrightarrow> call_site p u)"
      by auto
    then show ?thesis unfolding at_call_sites_def by blast
  qed
  have 3: "at_call_sites s (emit (Sleep t) s)" for s t
    by (simp add: at_call_sites_def emit_def)
  have 4: "at_call_sites s (snd (load_or_download sess p u d s))" if "call_site p u" for p u d s
    using that
    by (auto simp: at_call_sites_def load_or_download_def emit_def Let_def
             split: option.split content.split response.split)
  show ?thesis
    unfolding kept_def using 1 2 3 4 by blast
qed

lemma contest_url_site:
  assumes "call_site p (contest_url contest)"
  shows "p = contest_path contest"
  using assms by (cases rule: call_site.cases) (auto simp: contest_url_def contest_path_def)

subsection \<open>A second run\<close>

text \<open>
  Where no path holds a \<^verbatim>\<open>*\<close> and the delay is not negative, the traversal does skip
  what is stored. The first run is replayed on any storage that holds at least the files
  it left: each call of \<^verbatim>\<open>load_or_download\<close> finds its file and returns what the first
  run returned. The second run may iterate its sets in another order (\<open>h'\<close>) than the
  first (\<open>h\<close>).
\<close>

lemma grows_refl: "grows s s"
  by (simp add: grows_def)

lemma grows_trans:
  assumes "grows a b" and "grows b c"
  shows "grows a c"
proof -
  from assms obtain l m where l: "log b = log a @ l" and m: "log c = log b @ m"
    unfolding grows_def by blast
  have 1: "\<exists>k. log c = log a @ k" using l m by simp
  have 2: "fs a \<subseteq>\<^sub>m fs c" if free: "\<forall>p u. Fetch p u \<in> set (log c) \<longrightarrow> CHR ''*'' \<notin> set p"
  proof -
    from free m have "\<forall>p u. Fetch p u \<in> set (log b) \<longrightarrow> CHR ''*'' \<notin> set p" by auto
    with assms(1) have "fs a \<subseteq>\<^sub>m fs b" unfolding grows_def by blast
    moreover from free assms(2) have "fs b \<subseteq>\<^sub>m fs c" unfolding grows_def by blast
    ultimately show ?thesis by (rule map_le_trans)
  qed
  show ?thesis unfolding grows_def using 1 2 by blast
qed

lemma grows_sleep: "grows s (emit (Sleep t) s)"
  by (simp add: grows_def emit_def)

lemma grows_load_or_download: "grows s (snd (load_or_download sess p u d s))"
proof (cases "fs s p")
  case (Some found)
  then show ?thesis
    by (cases found) (simp_all add: grows_def load_or_download_def emit_def)
next
  case None
  show ?thesis
  proof (cases "sess (requests_made (log s)) u")
    case ConnectionFailed
    with None show ?thesis
      by (simp add: grows_def load_or_download_def emit_def)
  next
    case (Response body)
    show ?thesis
    proof (cases body)
      case NotJson
      with Response None show ?thesis
        by (simp add: grows_def load_or_download_def emit_def)
    next
      case (Json data)
      have "fs s \<subseteq>\<^sub>m (fs s)(p \<mapsto> Json data)"
        using None by (auto simp: map_le_def)
      with Json Response None show ?thesis
        by (auto simp: grows_def load_or_download_def emit_def Let_def replace_absent)
    qed
  qed
qed

lemma kept_grows: "kept sess d grows"
  unfolding kept_def
  using grows_refl grows_trans grows_sleep grows_load_or_download by blast

lemma growsD:
  assumes "grows s s'" and "answered sess E" and "set (log s') \<subseteq> E"
  shows "set (log s) \<subseteq> E" and "fs s \<subseteq>\<^sub>m fs s'"
proof -
  from assms(1) obtain l where "log s' = log s @ l" unfolding grows_def by blast
  with assms(3) show "set (log s) \<subseteq> E" by auto
  from assms(2,3) have "\<forall>p u. Fetch p u \<in> set (log s') \<longrightarrow> CHR ''*'' \<notin> set p"
    unfolding answered_def by blast
  with assms(1) show "fs s \<subseteq>\<^sub>m fs s'" unfolding grows_def by blast
qed

lemma only_loads_refl: "only_loads t t"
  by (auto simp: only_loads_def intro: exI [of _ "[]"])

lemma only_loads_trans:
  assumes "only_loads a b" and "only_loads b c"
  shows "only_loads a c"
proof -
  from assms obtain l m where "b = a\<lparr>log := log a @ l\<rparr>" "\<forall>e \<in> set l. is_Load e"
    "c = b\<lparr>log := log b @ m\<rparr>" "\<forall>e \<in> set m. is_Load e"
    unfolding only_loads_def by blast
  then have "c = a\<lparr>log := log a @ (l @ m)\<rparr> \<and> (\<forall>e \<in> set (l @ m). is_Load e)"
    by auto
  then show ?thesis unfolding only_loads_def by blast
qed

lemma only_loads_emit: "only_loads t (emit (Load p) t)"
  by (auto simp: only_loads_def emit_def intro: exI [of _ "[Load p]"])

lemma only_loads_fs: "only_loads t t' \<Longrightarrow> fs t' = fs t"
  by (auto simp: only_loads_def)

lemma load_or_download_replay:
  assumes "answered sess E" and delay: "0 \<le> d"
    and run: "load_or_download sess p u d s = (r, s1)"
    and sub: "set (log s1) \<subseteq> E"
    and le: "fs s1 \<subseteq>\<^sub>m fs t"
  shows "load_or_download sess p u d t = (r, emit (Load p) t)"
proof (cases "fs s p")
  case (Some found)
  with run have "fs s1 p = Some found"
    by (cases found) (auto simp: load_or_download_def emit_def)
  with le have "fs t p = Some found"
    by (metis domI map_le_def)
  with Some run show ?thesis
    by (cases found) (auto simp: load_or_download_def)
next
  case None
  with run have "Fetch p u \<in> set (log s1)"
    by (auto simp: load_or_download_def emit_def Let_def
             split: response.splits content.splits if_splits)
  with sub assms(1) obtain doc where
    star: "CHR ''*'' \<notin> set p" and doc: "sess (requests_made (log s)) u = Response (Json doc)"
    unfolding answered_def by (metis subsetD)
  from None doc run star delay have r: "r = Inr doc" and "fs s1 p = Some (Json doc)"
    by (auto simp: load_or_download_def emit_def Let_def replace_absent)
  with le have "fs t p = Some (Json doc)"
    by (metis domI map_le_def)
  with r show ?thesis
    by (simp add: load_or_download_def)
qed

lemma load_retrying_replay:
  assumes ans: "answered sess E" and delay: "0 \<le> d" and site: "call_site p u"
    and run: "load_retrying n sess p u d s = (Some r, s1)"
    and sub: "set (log s1) \<subseteq> E"
    and le: "fs s1 \<subseteq>\<^sub>m fs t"
  shows "load_retrying n sess p u d t = (Some r, emit (Load p) t)"
proof (cases n)
  case 0
  with run show ?thesis by simp
next
  case (Suc m)
  obtain r0 sa where lod: "load_or_download sess p u d s = (r0, sa)"
    by (cases "load_or_download sess p u d s")
  have once: "load_or_download sess p u d t = (r0, emit (Load p) t)"
    if "s1 = sa"
    using ans delay lod sub le that by (auto intro: load_or_download_replay)
  show ?thesis
  proof (cases r0)
    case (Inr data)
    with lod run Suc have "r = Inr data" "s1 = sa" by auto
    with once Inr Suc show ?thesis by simp
  next
    case (Inl e)
    show ?thesis
    proof (cases "is_ValueError e")
      case False
      with Inl lod run Suc have "r = Inl e" "s1 = sa" by auto
      with once Inl False Suc show ?thesis by simp
    next
      case True
      let ?sb = "emit (Sleep RETRY_WAIT) sa"
      from True Inl lod run Suc
      have rest: "load_retrying m sess p u d ?sb = (Some r, s1)" by simp
      have "grows ?sb (snd (load_retrying m sess p u d ?sb))"
        using kept_grows site by (rule kept_load_retrying)
      with rest have "grows ?sb s1" by simp
      then have "set (log ?sb) \<subseteq> E"
        using ans sub by (rule growsD)
      then have subsa: "set (log sa) \<subseteq> E" by (auto simp: emit_def)
      show ?thesis
      proof (cases "fs s p")
        case (Some found)
        with lod Inl have "found = NotJson" "fs sa p = Some NotJson"
          by (cases found; auto simp: load_or_download_def emit_def)+
        then have "fs ?sb p = Some NotJson" by (simp add: emit_def)
        then have "fst (load_retrying m sess p u d ?sb) = None"
          by (rule load_retrying_unparsable_file)
        with rest show ?thesis by simp
      next
        case None
        with lod have "Fetch p u \<in> set (log sa)"
          by (auto simp: load_or_download_def emit_def Let_def
                   split: response.splits content.splits if_splits)
        with subsa ans obtain doc where
          "sess (requests_made (log s)) u = Response (Json doc)"
          unfolding answered_def by (metis subsetD)
        with None lod Inl delay show ?thesis
          by (auto simp: load_or_download_def Let_def)
      qed
    qed
  qed
qed

lemma for_each_ran:
  assumes ans: "answered sess E"
    and body_grows: "\<And>x a. grows a (snd (body x a))"
    and run: "for_each body xs s = (Some (Inr ()), s1)"
    and sub: "set (log s1) \<subseteq> E"
    and x: "x \<in> set xs"
  shows "\<exists>a b. body x a = (Some (Inr ()), b) \<and> set (log b) \<subseteq> E \<and> fs b \<subseteq>\<^sub>m fs s1"
  using run x
proof (induction xs arbitrary: s)
  case Nil
  then show ?case by simp
next
  case (Cons y ys)
  obtain r0 sa where b: "body y s = (r0, sa)" by (cases "body y s")
  with Cons.prems(1) have r0: "r0 = Some (Inr ())"
    and rest: "for_each body ys sa = (Some (Inr ()), s1)"
    by (auto split: option.splits sum.splits)
  have "grows sa (snd (for_each body ys sa))"
    using kept_grows [of sess 0] by (rule kept_for_each) (rule body_grows)
  with rest have g: "grows sa s1" by simp
  have subsa: "set (log sa) \<subseteq> E" and lesa: "fs sa \<subseteq>\<^sub>m fs s1"
    using growsD [OF g ans sub] by auto
  show ?case
  proof (cases "x = y")
    case True
    with b r0 subsa lesa show ?thesis by blast
  next
    case False
    with Cons.prems(2) have "x \<in> set ys" by simp
    with rest show ?thesis by (rule Cons.IH)
  qed
qed

lemma for_each_replay:
  assumes ans: "answered sess E"
    and body_grows: "\<And>x a. grows a (snd (body x a))"
    and body_replay: "\<And>x a b t. x \<in> set xs \<Longrightarrow> body x a = (Some (Inr ()), b)
                        \<Longrightarrow> set (log b) \<subseteq> E \<Longrightarrow> fs b \<subseteq>\<^sub>m fs t
                        \<Longrightarrow> \<exists>t'. body' x t = (Some (Inr ()), t') \<and> only_loads t t'"
    and run: "for_each body xs s = (Some (Inr ()), s1)"
    and sub: "set (log s1) \<subseteq> E"
    and le: "fs s1 \<subseteq>\<^sub>m fs t"
    and ys: "set ys \<subseteq> set xs"
  shows "\<exists>t'. for_each body' ys t = (Some (Inr ()), t') \<and> only_loads t t'"
  using le ys
proof (induction ys arbitrary: t)
  case Nil
  show ?case by (simp add: only_loads_refl)
next
  case (Cons y ys)
  from Cons.prems(2) have y: "y \<in> set xs" by simp
  from for_each_ran [OF ans body_grows run sub y] obtain a b where
    ab: "body y a = (Some (Inr ()), b)" "set (log b) \<subseteq> E" "fs b \<subseteq>\<^sub>m fs s1"
    by blast
  from ab(3) Cons.prems(1) have "fs b \<subseteq>\<^sub>m fs t" by (rule map_le_trans)
  with body_replay [OF y ab(1) ab(2)]
  obtain t1 where t1: "body' y t = (Some (Inr ()), t1)" "only_loads t t1"
    by blast
  from t1(2) Cons.prems(1) have "fs s1 \<subseteq>\<^sub>m fs t1"
    by (simp add: only_loads_fs)
  moreover from Cons.prems(2) have "set ys \<subseteq> set xs" by simp
  ultimately obtain t' where t': "for_each body' ys t1 = (Some (Inr ()), t')" "only_loads t1 t'"
    using Cons.IH by blast
  from t1(2) t'(2) have "only_loads t t'" by (rule only_loads_trans)
  with t1(1) t'(1) show ?case by simp
qed

lemma download_contest_replay:
  assumes ans: "answered sess E" and delay: "0 \<le> d"
    and run: "download_contest n sess d contest s = (Some (Inr ()), s1)"
    and sub: "set (log s1) \<subseteq> E"
    and le: "fs s1 \<subseteq>\<^sub>m fs t"
  shows "\<exists>t'. download_contest n sess d contest t = (Some (Inr ()), t') \<and> only_loads t t'"
proof -
  from run obtain data where
    "load_retrying n sess (contest_path contest) (contest_url contest) d s
       = (Some (Inr data), s1)"
    by (auto simp: download_contest_def split: prod.splits option.splits sum.splits)
  with ans delay call_site.contest
  have "load_retrying n sess (contest_path contest) (contest_url contest) d t
          = (Some (Inr data), emit (Load (contest_path contest)) t)"
    using sub le by (rule load_retrying_replay)
  then show ?thesis
    by (simp add: download_contest_def only_loads_emit)
qed

lemma download_precinct_replay:
  assumes ans: "answered sess E" and delay: "0 \<le> d"
    and run: "download_precinct n sess h node_dir d q s = (Some (Inr ()), s1)"
    and sub: "set (log s1) \<subseteq> E"
    and le: "fs s1 \<subseteq>\<^sub>m fs t"
  shows "\<exists>t'. download_precinct n sess h' node_dir d q t = (Some (Inr ()), t') \<and> only_loads t t'"
proof (cases "vbs q" rule: remdups_adj.cases)
  case 1
  with run show ?thesis by (simp add: download_precinct_def)
next
  case (3 v w ws)
  with run show ?thesis by (simp add: download_precinct_def)
next
  case (2 v)
  let ?path = "path_join BASE_DIR [''results'', node_dir, ppcc q @ ''.json'']"
  let ?url = "urljoin [BASE_URL, ''results'', vb_url v @ ''.json'']"
  let ?t1 = "emit (Load ?path) t"
  obtain r0 sa where lod: "load_or_download sess ?path ?url d s = (r0, sa)"
    by (cases "load_or_download sess ?path ?url d s")
  show ?thesis
  proof (cases r0)
    case (Inl e)
    with 2 lod run have "is_ValueError e" "s1 = sa"
      by (auto simp: download_precinct_def split: if_splits)
    moreover from this ans delay lod sub le
    have "load_or_download sess ?path ?url d t = (r0, ?t1)"
      by (auto intro: load_or_download_replay)
    ultimately show ?thesis
      using 2 Inl by (simp add: download_precinct_def only_loads_emit)
  next
    case (Inr data)
    with 2 lod run obtain rows where rows: "data = Results rows"
      and rest: "for_each (download_contest n sess d) (iterate_set h (map cc rows)) sa
                   = (Some (Inr ()), s1)"
      by (cases data) (auto simp: download_precinct_def)
    have "grows sa (snd (for_each (download_contest n sess d) (iterate_set h (map cc rows)) sa))"
      using kept_grows [of sess d]
      by (rule kept_for_each) (rule kept_download_contest [OF kept_grows])
    with rest have g: "grows sa s1" by simp
    have subsa: "set (log sa) \<subseteq> E" and lesa: "fs sa \<subseteq>\<^sub>m fs s1"
      using growsD [OF g ans sub] by auto
    from lesa le have "fs sa \<subseteq>\<^sub>m fs t" by (rule map_le_trans)
    with ans delay lod subsa have first: "load_or_download sess ?path ?url d t = (r0, ?t1)"
      by (rule load_or_download_replay)
    have le1: "fs s1 \<subseteq>\<^sub>m fs ?t1" using le by (simp add: emit_def)
    have same: "set (iterate_set h' (map cc rows)) \<subseteq> set (iterate_set h (map cc rows))"
      by (simp add: set_iterate_set)
    have "\<exists>t'. for_each (download_contest n sess d) (iterate_set h' (map cc rows)) ?t1
                  = (Some (Inr ()), t') \<and> only_loads ?t1 t'"
      using ans kept_download_contest [OF kept_grows] download_contest_replay [OF ans delay]
            rest sub le1 same
      by (rule for_each_replay)
    then obtain t' where
      t': "for_each (download_contest n sess d) (iterate_set h' (map cc rows)) ?t1
             = (Some (Inr ()), t')" "only_loads ?t1 t'"
      by blast
    have "only_loads t t'"
      using only_loads_emit t'(2) by (rule only_loads_trans)
    with first t'(1) 2 Inr rows show ?thesis
      by (simp add: download_precinct_def)
  qed
qed

lemma download_coc_replay:
  assumes ans: "answered sess E" and delay: "0 \<le> d"
    and run: "download_coc sess node_dir d q s = (Some (Inr ()), s1)"
    and sub: "set (log s1) \<subseteq> E"
    and le: "fs s1 \<subseteq>\<^sub>m fs t"
  shows "\<exists>t'. download_coc sess node_dir d q t = (Some (Inr ()), t') \<and> only_loads t t'"
proof (cases "vbs q" rule: remdups_adj.cases)
  case 1
  with run show ?thesis by (simp add: download_coc_def)
next
  case (3 v w ws)
  with run show ?thesis by (simp add: download_coc_def)
next
  case (2 v)
  let ?path = "path_join BASE_DIR [''results'', node_dir, ''coc.json'']"
  let ?url = "urljoin [BASE_URL, ''results'', vb_url v @ ''.json'']"
  obtain r0 sa where lod: "load_or_download sess ?path ?url d s = (r0, sa)"
    by (cases "load_or_download sess ?path ?url d s")
  with 2 run have s1: "s1 = sa" and ok: "\<forall>e. r0 = Inl e \<longrightarrow> is_ValueError e"
    by (auto simp: download_coc_def split: sum.splits if_splits)
  from ans delay lod sub le s1
  have "load_or_download sess ?path ?url d t = (r0, emit (Load ?path) t)"
    by (auto intro: load_or_download_replay)
  with 2 ok show ?thesis
    by (cases r0) (simp_all add: download_coc_def only_loads_emit)
qed

lemma terminal_data_replay:
  assumes ans: "answered sess E" and delay: "0 \<le> d"
    and run: "terminal_data n sess h node_dir d c ps s = (Some (Inr ()), s1)"
    and sub: "set (log s1) \<subseteq> E"
    and le: "fs s1 \<subseteq>\<^sub>m fs t"
  shows "\<exists>t'. terminal_data n sess h' node_dir d c ps t = (Some (Inr ()), t') \<and> only_loads t t'"
proof (cases "c = ''Barangay''")
  case True
  with run
  have fe: "for_each (download_precinct n sess h node_dir d) ps s = (Some (Inr ()), s1)"
    by (simp add: terminal_data_def)
  have "\<exists>t'. for_each (download_precinct n sess h' node_dir d) ps t = (Some (Inr ()), t')
              \<and> only_loads t t'"
    using ans kept_download_precinct [OF kept_grows] download_precinct_replay [OF ans delay]
          fe sub le order_refl
    by (rule for_each_replay)
  with True show ?thesis by (simp add: terminal_data_def)
next
  case False
  with run have gate: "c = ''Country'' \<or> length ps < 2"
    and fe: "for_each (download_coc sess node_dir d) ps s = (Some (Inr ()), s1)"
    by (auto simp: terminal_data_def split: if_splits)
  have "\<exists>t'. for_each (download_coc sess node_dir d) ps t = (Some (Inr ()), t')
              \<and> only_loads t t'"
    using ans kept_download_coc [OF kept_grows] download_coc_replay [OF ans delay]
          fe sub le order_refl
    by (rule for_each_replay)
  with False gate show ?thesis by (auto simp: terminal_data_def)
qed

lemma download_data_replay:
  assumes ans: "answered sess E" and delay: "0 \<le> d"
    and run: "download_data n sess h node_dir node_url d s = (Some (Inr ()), s1)"
    and sub: "set (log s1) \<subseteq> E"
    and le: "fs s1 \<subseteq>\<^sub>m fs t"
  shows "\<exists>t'. download_data n sess h' node_dir node_url d t = (Some (Inr ()), t')
              \<and> only_loads t t'"
  using run sub le
proof (induction n arbitrary: node_dir node_url s s1 t)
  case 0
  then show ?case by simp
next
  case (Suc n)
  let ?path = "path_join BASE_DIR [''results'', node_dir, ''info.json'']"
  let ?url = "urljoin [BASE_URL, ''regions'', node_url]"
  let ?body = "\<lambda>ch. download_data n sess h
                       (path_join node_dir [replace CHR ''/'' CHR ''_'' (child_rn ch)])
                       (child_url ch @ ''.json'') d"
  let ?body' = "\<lambda>ch. download_data n sess h'
                       (path_join node_dir [replace CHR ''/'' CHR ''_'' (child_rn ch)])
                       (child_url ch @ ''.json'') d"
  let ?t1 = "emit (Load ?path) t"
  obtain r0 sa where lr: "load_retrying n sess ?path ?url d s = (r0, sa)"
    by (cases "load_retrying n sess ?path ?url d s")
  with Suc.prems(1) obtain c children ps where
    r0: "r0 = Some (Inr (NodeInfo c children ps))"
    by (auto simp: Let_def split: option.splits sum.splits json.splits)
  obtain r1 sb where fe: "for_each ?body children sa = (r1, sb)"
    by (cases "for_each ?body children sa")
  with Suc.prems(1) lr r0 have r1: "r1 = Some (Inr ())"
    and td: "terminal_data n sess h node_dir d c ps sb = (Some (Inr ()), s1)"
    by (auto simp: Let_def split: option.splits sum.splits)
  have "grows sb (snd (terminal_data n sess h node_dir d c ps sb))"
    using kept_grows [of sess d] by (rule kept_terminal_data)
  with td have g2: "grows sb s1" by simp
  have subsb: "set (log sb) \<subseteq> E" and lesb: "fs sb \<subseteq>\<^sub>m fs s1"
    using growsD [OF g2 ans Suc.prems(2)] by auto
  have "grows sa (snd (for_each ?body children sa))"
    using kept_grows [of sess d]
    by (rule kept_for_each) (rule kept_download_data [OF kept_grows])
  with fe have g1: "grows sa sb" by simp
  have subsa: "set (log sa) \<subseteq> E" and lesa: "fs sa \<subseteq>\<^sub>m fs sb"
    using growsD [OF g1 ans subsb] by auto
  have lesbt: "fs sb \<subseteq>\<^sub>m fs t" using lesb Suc.prems(3) by (rule map_le_trans)
  have lesat: "fs sa \<subseteq>\<^sub>m fs t" using lesa lesbt by (rule map_le_trans)
  have first: "load_retrying n sess ?path ?url d t
                 = (Some (Inr (NodeInfo c children ps)), ?t1)"
    using ans delay call_site.info lr [unfolded r0] subsa lesat by (rule load_retrying_replay)
  have lesbt1: "fs sb \<subseteq>\<^sub>m fs ?t1" using lesbt by (simp add: emit_def)
  have "\<exists>t2. for_each ?body' children ?t1 = (Some (Inr ()), t2) \<and> only_loads ?t1 t2"
    using ans kept_download_data [OF kept_grows] Suc.IH fe [unfolded r1] subsb lesbt1 order_refl
    by (rule for_each_replay)
  then obtain t2 where
    t2: "for_each ?body' children ?t1 = (Some (Inr ()), t2)" "only_loads ?t1 t2"
    by blast
  have "fs s1 \<subseteq>\<^sub>m fs t2"
    using Suc.prems(3) t2(2) by (simp add: only_loads_fs emit_def)
  with ans delay td Suc.prems(2)
  obtain t3 where t3: "terminal_data n sess h' node_dir d c ps t2 = (Some (Inr ()), t3)"
    "only_loads t2 t3"
    using terminal_data_replay by blast
  have "only_loads t t3"
    using only_loads_emit t2(2) t3(2) by (blast intro: only_loads_trans)
  with first t2(1) t3(1) show ?case by simp
qed

text \<open>
  Idempotence, for an upstream that does not change and a delay that is not negative:
  after a run that returned normally and in which every request was for a path without
  \<^verbatim>\<open>*\<close> and was answered with JSON, a second run, whatever the order in which it
  iterates its sets, returns normally, issues no request, sleeps and writes nothing, and
  leaves the files as they are: its log gains reads only.
\<close>

theorem second_run_only_reads:
  assumes unchanged: "\<forall>k u. sess k u = sess 0 u" and delay: "0 \<le> d"
    and run: "download_data n sess h node_dir node_url d s = (Some (Inr ()), s1)"
    and stored: "\<forall>p u. Fetch p u \<in> set (log s1)
                   \<longrightarrow> CHR ''*'' \<notin> set p \<and> (\<exists>doc. sess 0 u = Response (Json doc))"
  shows "\<exists>m. download_data n sess h' node_dir node_url d s1
               = (Some (Inr ()), s1\<lparr>log := log s1 @ m\<rparr>)
             \<and> (\<forall>e \<in> set m. is_Load e)"
proof -
  have ans: "answered sess (set (log s1))"
    unfolding answered_def using unchanged stored by blast
  from download_data_replay [OF ans delay run order_refl map_le_refl]
  show ?thesis unfolding only_loads_def by blast
qed

text \<open>
  Resumability: in a run that requests no path with a \<^verbatim>\<open>*\<close>, every file that was there at
  the start is there at the end with the same text (and by \<open>present_file_is_not_fetched\<close>
  nothing is requested for it).
\<close>

lemma present_files_unchanged:
  assumes "\<forall>p u. Fetch p u \<in> set (log (snd (download_data n sess h node_dir node_url d s)))
             \<longrightarrow> CHR ''*'' \<notin> set p"
  shows "fs s \<subseteq>\<^sub>m fs (snd (download_data n sess h node_dir node_url d s))"
proof -
  have "grows s (snd (download_data n sess h node_dir node_url d s))"
    using kept_grows by (rule kept_download_data)
  with assms show ?thesis unfolding grows_def by blast
qed

text \<open>The scenario of the specification, run twice from empty storage.\<close>

lemma end_to_end_first_run:
  "fst (download_data 4 end_to_end h [] ''root.json'' (1/2) no_files) = Some (Inr ())
   \<and> log (snd (download_data 4 end_to_end h [] ''root.json'' (1/2) no_files))
     = [Fetch ''data/results/info.json'' (urljoin [BASE_URL, ''regions'', ''root.json'']),
        Sleep (1/2),
        Write ''data/results/info.json'' (Json (NodeInfo ''Region'' [Child ''A'' ''a''] [])),
        Fetch ''data/results/A/info.json'' (urljoin [BASE_URL, ''regions'', ''a.json'']),
        Sleep (1/2),
        Write ''data/results/A/info.json''
          (Json (NodeInfo ''Barangay'' [] [Precinct ''p1'' [VB ''res1'']])),
        Fetch ''data/results/A/p1.json'' (urljoin [BASE_URL, ''results'', ''res1.json'']),
        Sleep (1/2),
        Write ''data/results/A/p1.json'' (Json (Results [Row ''C1'', Row ''C1''])),
        Fetch ''data/contests/C1.json'' (contest_url ''C1''),
        Sleep (1/2),
        Write ''data/contests/C1.json'' (Json (Document ''c1''))]"
  by code_simp

lemma end_to_end_second_run:
  "\<exists>m. download_data 4 end_to_end h' [] ''root.json'' (1/2)
          (snd (download_data 4 end_to_end h [] ''root.json'' (1/2) no_files))
        = (Some (Inr ()),
           (snd (download_data 4 end_to_end h [] ''root.json'' (1/2) no_files))
             \<lparr>log := log (snd (download_data 4 end_to_end h [] ''root.json'' (1/2) no_files)) @ m\<rparr>)
      \<and> (\<forall>e \<in> set m. is_Load e)"
proof -
  let ?s1 = "snd (download_data 4 end_to_end h [] ''root.json'' (1/2) no_files)"
  have unchanged: "\<forall>k u. end_to_end k u = end_to_end 0 u"
    by (simp add: end_to_end_def)
  have run: "download_data 4 end_to_end h [] ''root.json'' (1/2) no_files = (Some (Inr ()), ?s1)"
    using end_to_end_first_run by (simp add: prod_eq_iff)
  have stored: "\<forall>p u. Fetch p u \<in> set (log ?s1)
                   \<longrightarrow> CHR ''*'' \<notin> set p \<and> (\<exists>doc. end_to_end 0 u = Response (Json doc))"
    using end_to_end_first_run by (auto simp: end_to_end_def)
  have delay: "(0::real) \<le> 1/2" by simp
  from unchanged delay run stored show ?thesis
    by (rule second_run_only_reads)
qed

subsection \<open>Contest documents\<close>

lemma contest_path_no_star:
  assumes "CHR ''*'' \<notin> set contest"
  shows "CHR ''*'' \<notin> set (contest_path contest)"
proof
  assume "CHR ''*'' \<in> set (contest_path contest)"
  with set_path_join [of BASE_DIR "[''contests'', contest @ ''.json'']"]
  have "CHR ''*'' \<in> set BASE_DIR \<union> \<Union> (set ` set [''contests'', contest @ ''.json''])
          \<union> {CHR ''/''}"
    unfolding contest_path_def by blast
  with assms show False by (simp add: BASE_DIR_def)
qed

lemma no_fetch_after_write:
  assumes "\<forall>e \<in> set (dropWhile (\<lambda>e. \<not> writes p e) l). \<not> fetches p e"
    and "l = l1 @ Write p c # l2"
  shows "Fetch p u \<notin> set l2"
proof
  assume in2: "Fetch p u \<in> set l2"
  have "set l2 \<subseteq> set (dropWhile (\<lambda>e. \<not> writes p e) (l1 @ Write p c # l2))"
    by (auto simp: dropWhile_append)
  with in2 assms have "\<not> fetches p (Fetch p u)" by blast
  then show False by simp
qed

text \<open>
  A set holds each of its elements once, whatever the order of iteration: a contest
  that a return names, in one row or in several, is referenced once by that return.
\<close>

lemma iterate_set_once:
  assumes "X \<in> set xs"
  shows "\<exists>before after. iterate_set h xs = before @ X # after
            \<and> X \<notin> set before \<and> X \<notin> set after"
proof -
  from assms have "X \<in> set (iterate_set h xs)" by (simp add: set_iterate_set)
  then obtain before after where split: "iterate_set h xs = before @ X # after"
    by (meson split_list)
  have "distinct (before @ X # after)"
    using distinct_iterate_set [of h xs] split by simp
  then have "X \<notin> set before \<and> X \<notin> set after" by auto
  with split show ?thesis by blast
qed

text \<open>
  The first reference to a contest whose file is absent: the locator is requested until
  a response parses, with the fixed wait after each response that does not, and the
  document is then written. It needs as much fuel as there are failed attempts, and a
  delay that is not negative.
\<close>

lemma download_contest_until_published:
  assumes "CHR ''*'' \<notin> set X" and "fs t (contest_path X) = None" and "0 \<le> d"
    and "\<forall>i < k. sess (requests_made (log t) + i) (contest_url X) = Response NotJson"
    and "sess (requests_made (log t) + k) (contest_url X) = Response (Json data)"
    and "k < m"
  shows "\<exists>t'. download_contest m sess d X t = (Some (Inr ()), t')
            \<and> log t' = log t
                 @ concat (replicate k [Fetch (contest_path X) (contest_url X), Sleep RETRY_WAIT])
                 @ [Fetch (contest_path X) (contest_url X), Sleep d,
                    Write (contest_path X) (Json data)]
            \<and> fs t' = (fs t)(contest_path X \<mapsto> Json data)"
proof -
  have "\<exists>t'. load_retrying m sess (contest_path X) (contest_url X) d t = (Some (Inr data), t')
          \<and> log t' = log t
              @ concat (replicate k [Fetch (contest_path X) (contest_url X), Sleep RETRY_WAIT])
              @ [Fetch (contest_path X) (contest_url X), Sleep d,
                 Write (replace CHR ''*'' CHR ''_'' (contest_path X)) (Json data)]
          \<and> fs t' = (fs t)(replace CHR ''*'' CHR ''_'' (contest_path X) \<mapsto> Json data)"
    using assms(2,4,5,6,3) by (rule load_retrying_eventually)
  then obtain t' where
    "load_retrying m sess (contest_path X) (contest_url X) d t = (Some (Inr data), t')"
    "log t' = log t
       @ concat (replicate k [Fetch (contest_path X) (contest_url X), Sleep RETRY_WAIT])
       @ [Fetch (contest_path X) (contest_url X), Sleep d,
          Write (replace CHR ''*'' CHR ''_'' (contest_path X)) (Json data)]"
    "fs t' = (fs t)(replace CHR ''*'' CHR ''_'' (contest_path X) \<mapsto> Json data)"
    by blast
  then show ?thesis
    by (simp add: download_contest_def replace_absent [OF contest_path_no_star [OF assms(1)]])
qed

lemma download_contest_cached:
  assumes "fs t (contest_path X) = Some (Json data)"
  shows "download_contest (Suc m) sess d X t = (Some (Inr ()), emit (Load (contest_path X)) t)"
  using assms by (simp add: download_contest_def load_or_download_def)

text \<open>
  The requests for a contest that are answered with JSON, counted over the whole
  traversal: at most one, for an identifier without \<^verbatim>\<open>*\<close> and a delay that is not
  negative, because the answer is stored where the next reference looks for it.
\<close>

lemma requests_made_append: "requests_made (l @ m) = requests_made l + requests_made m"
  by (simp add: requests_made_def)

lemma answered_with_json_append:
  "answered_with_json sess u k (l @ m)
     = answered_with_json sess u k l + answered_with_json sess u (k + requests_made l) m"
  by (induction sess u k l rule: answered_with_json.induct)
     (simp_all add: requests_made_def)

lemma once_refl: "once sess X s s"
  by (simp add: once_def)

lemma once_sleep: "once sess X s (emit (Sleep t) s)"
  by (simp add: once_def emit_def)

lemma once_trans:
  assumes "once sess X a b" and "once sess X b c"
  shows "once sess X a c"
proof -
  let ?P = "contest_path X" and ?U = "contest_url X"
  from assms(1) obtain l where l: "log b = log a @ l"
    "answered_with_json sess ?U (requests_made (log a)) l \<le> 1"
    "0 < answered_with_json sess ?U (requests_made (log a)) l \<longrightarrow> fs b ?P \<noteq> None"
    "fs a ?P \<noteq> None
       \<longrightarrow> fs b ?P \<noteq> None \<and> answered_with_json sess ?U (requests_made (log a)) l = 0"
    unfolding once_def by (elim exE conjE)
  from assms(2) obtain m where m: "log c = log b @ m"
    "answered_with_json sess ?U (requests_made (log b)) m \<le> 1"
    "0 < answered_with_json sess ?U (requests_made (log b)) m \<longrightarrow> fs c ?P \<noteq> None"
    "fs b ?P \<noteq> None
       \<longrightarrow> fs c ?P \<noteq> None \<and> answered_with_json sess ?U (requests_made (log b)) m = 0"
    unfolding once_def by (elim exE conjE)
  have sum: "answered_with_json sess ?U (requests_made (log a)) (l @ m)
               = answered_with_json sess ?U (requests_made (log a)) l
                 + answered_with_json sess ?U (requests_made (log b)) m"
    using l(1) by (simp add: answered_with_json_append requests_made_append)
  have 1: "log c = log a @ (l @ m)" using l(1) m(1) by simp
  have 2: "answered_with_json sess ?U (requests_made (log a)) (l @ m) \<le> 1"
    using sum l(2,3) m(2,4) by (cases "answered_with_json sess ?U (requests_made (log a)) l = 0") auto
  have 3: "0 < answered_with_json sess ?U (requests_made (log a)) (l @ m) \<longrightarrow> fs c ?P \<noteq> None"
    using sum l(3) m(3,4) by auto
  have 4: "fs a ?P \<noteq> None
             \<longrightarrow> fs c ?P \<noteq> None
                 \<and> answered_with_json sess ?U (requests_made (log a)) (l @ m) = 0"
    using sum l(4) m(4) by auto
  have "log c = log a @ (l @ m)
        \<and> answered_with_json sess ?U (requests_made (log a)) (l @ m) \<le> 1
        \<and> (0 < answered_with_json sess ?U (requests_made (log a)) (l @ m)
             \<longrightarrow> fs c ?P \<noteq> None)
        \<and> (fs a ?P \<noteq> None
             \<longrightarrow> fs c ?P \<noteq> None
                 \<and> answered_with_json sess ?U (requests_made (log a)) (l @ m) = 0)"
    using 1 2 3 4 by (intro conjI)
  then show ?thesis
    unfolding once_def by (rule exI [of _ "l @ m"])
qed

lemma once_load_or_download:
  assumes star: "CHR ''*'' \<notin> set X" and delay: "0 \<le> d" and site: "call_site p u"
  shows "once sess X s (snd (load_or_download sess p u d s))"
proof (cases "fs s p")
  case (Some found)
  then show ?thesis
    by (cases found) (simp_all add: once_def load_or_download_def emit_def)
next
  case None
  have path: "u = contest_url X \<Longrightarrow> p = contest_path X"
    using site contest_url_site by blast
  have same: "replace CHR ''*'' CHR ''_'' (contest_path X) = contest_path X"
    using star by (simp add: replace_absent contest_path_no_star)
  show ?thesis
  proof (cases "sess (requests_made (log s)) u")
    case ConnectionFailed
    with None show ?thesis
      by (simp add: once_def load_or_download_def emit_def)
  next
    case (Response body)
    show ?thesis
    proof (cases body)
      case NotJson
      with Response None show ?thesis
        by (simp add: once_def load_or_download_def emit_def)
    next
      case (Json data)
      show ?thesis
      proof (cases "u = contest_url X")
        case True
        with path have "p = contest_path X" by simp
        with True Json Response None delay same show ?thesis
          by (simp add: once_def load_or_download_def emit_def Let_def)
      next
        case False
        with Json Response None delay show ?thesis
          by (simp add: once_def load_or_download_def emit_def Let_def)
      qed
    qed
  qed
qed

lemma kept_once:
  assumes "CHR ''*'' \<notin> set X" and "0 \<le> d"
  shows "kept sess d (once sess X)"
  unfolding kept_def
  using once_refl once_trans once_sleep once_load_or_download [OF assms] by blast

text \<open>
  C8, amended. For a contest \<open>X\<close> named by any number of returns:
  \<^item> In the whole traversal, every request for the locator of \<open>X\<close> is issued for the flat
    path \<^verbatim>\<open>contests/X.json\<close>, whichever leaf names \<open>X\<close>, and only while that file is
    absent: not at all when the file is there before the run, and never after a write to
    it. For an identifier without \<^verbatim>\<open>*\<close> and a delay that is not negative, at most one
    of these requests is answered with JSON, and if one is, the file is there at the end.
  \<^item> A return that names \<open>X\<close>, in one row or in several, references it once, whatever
    the order in which the set of its contests is iterated.
  \<^item> The precinct whose return names \<open>X\<close> does resolve it: once the return has been
    resolved and the contests \<open>before\<close> it handled, with the file absent, an upstream
    that answers \<open>k\<close> requests with text that does not parse and the next one with JSON,
    and fuel above \<open>k\<close>, the reference requests the locator \<open>k + 1\<close> times, sleeping
    \<open>RETRY_WAIT\<close> after each failure, writes the one file \<^verbatim>\<open>contests/X.json\<close> with
    what was received, and the precinct goes on with the contests \<open>after\<close> it.
  \<^item> A reference made while the file is there is a cache hit: a read and nothing else.
\<close>

theorem contest_is_fetched_until_stored:
  "(\<exists>l. log (snd (download_data n sess h node_dir node_url d s)) = log s @ l
        \<and> (\<forall>p. Fetch p (contest_url X) \<in> set l \<longrightarrow> p = contest_path X)
        \<and> (fs s (contest_path X) \<noteq> None \<longrightarrow> (\<forall>u. Fetch (contest_path X) u \<notin> set l))
        \<and> (\<forall>l1 c l2. l = l1 @ Write (contest_path X) c # l2
              \<longrightarrow> (\<forall>u. Fetch (contest_path X) u \<notin> set l2))
        \<and> (CHR ''*'' \<notin> set X \<and> 0 \<le> d
              \<longrightarrow> answered_with_json sess (contest_url X) (requests_made (log s)) l \<le> 1
                  \<and> (0 < answered_with_json sess (contest_url X) (requests_made (log s)) l
                       \<longrightarrow> fs (snd (download_data n sess h node_dir node_url d s))
                             (contest_path X) \<noteq> None)))
   \<and> (X \<in> cc ` set rows
        \<longrightarrow> (\<exists>before after. iterate_set h (map cc rows) = before @ X # after
               \<and> X \<notin> set before \<and> X \<notin> set after))
   \<and> (vbs p = [v]
        \<and> load_or_download sess (path_join BASE_DIR [''results'', dir, ppcc p @ ''.json''])
              (urljoin [BASE_URL, ''results'', vb_url v @ ''.json'']) d s0
            = (Inr (Results rows), s1)
        \<and> iterate_set h (map cc rows) = before @ X # after
        \<and> for_each (download_contest m sess d) before s1 = (Some (Inr ()), t)
        \<and> CHR ''*'' \<notin> set X \<and> 0 \<le> d \<and> fs t (contest_path X) = None
        \<and> (\<forall>i < k. sess (requests_made (log t) + i) (contest_url X) = Response NotJson)
        \<and> sess (requests_made (log t) + k) (contest_url X) = Response (Json data)
        \<and> k < m
        \<longrightarrow> (\<exists>t'. log t' = log t
                      @ concat (replicate k [Fetch (contest_path X) (contest_url X),
                                             Sleep RETRY_WAIT])
                      @ [Fetch (contest_path X) (contest_url X), Sleep d,
                         Write (contest_path X) (Json data)]
                \<and> fs t' = (fs t)(contest_path X \<mapsto> Json data)
                \<and> download_precinct m sess h dir d p s0
                    = for_each (download_contest m sess d) after t'))
   \<and> (fs t0 (contest_path X) = Some (Json data0)
        \<longrightarrow> download_contest (Suc m0) sess d X t0
              = (Some (Inr ()), emit (Load (contest_path X)) t0))"
proof -
  let ?s' = "snd (download_data n sess h node_dir node_url d s)"
  let ?P = "contest_path X" and ?U = "contest_url X"
  have "settled ?P s ?s'"
    using kept_settled [of sess d] by (rule kept_download_data)
  then obtain l where l: "log ?s' = log s @ l"
    "fs s ?P \<noteq> None \<longrightarrow> (\<forall>e \<in> set l. \<not> fetches ?P e)"
    "\<forall>e \<in> set (dropWhile (\<lambda>e. \<not> writes ?P e) l). \<not> fetches ?P e"
    unfolding settled_def by blast
  have "at_call_sites s ?s'"
    using kept_at_call_sites [of sess d] by (rule kept_download_data)
  with l(1) have sites: "\<forall>p u. Fetch p u \<in> set l \<longrightarrow> call_site p u"
    unfolding at_call_sites_def by auto
  have a: "\<forall>p. Fetch p ?U \<in> set l \<longrightarrow> p = ?P"
    using sites contest_url_site [of _ X] by blast
  have b: "fs s ?P \<noteq> None \<longrightarrow> (\<forall>u. Fetch ?P u \<notin> set l)"
    using l(2) by fastforce
  have c: "\<forall>l1 c l2. l = l1 @ Write ?P c # l2 \<longrightarrow> (\<forall>u. Fetch ?P u \<notin> set l2)"
    using no_fetch_after_write [OF l(3)] by blast
  have e: "answered_with_json sess ?U (requests_made (log s)) l \<le> 1
           \<and> (0 < answered_with_json sess ?U (requests_made (log s)) l \<longrightarrow> fs ?s' ?P \<noteq> None)"
    if "CHR ''*'' \<notin> set X" and "0 \<le> d"
  proof -
    have "once sess X s ?s'"
      using kept_once [OF that] by (rule kept_download_data)
    then obtain l' where l': "log ?s' = log s @ l'"
      "answered_with_json sess ?U (requests_made (log s)) l' \<le> 1"
      "0 < answered_with_json sess ?U (requests_made (log s)) l' \<longrightarrow> fs ?s' ?P \<noteq> None"
      unfolding once_def by (elim exE conjE)
    from l(1) l'(1) have "l' = l" by simp
    with l'(2,3) show ?thesis by simp
  qed
  have first: "\<exists>l. log ?s' = log s @ l
        \<and> (\<forall>p. Fetch p ?U \<in> set l \<longrightarrow> p = ?P)
        \<and> (fs s ?P \<noteq> None \<longrightarrow> (\<forall>u. Fetch ?P u \<notin> set l))
        \<and> (\<forall>l1 c l2. l = l1 @ Write ?P c # l2 \<longrightarrow> (\<forall>u. Fetch ?P u \<notin> set l2))
        \<and> (CHR ''*'' \<notin> set X \<and> 0 \<le> d
              \<longrightarrow> answered_with_json sess ?U (requests_made (log s)) l \<le> 1
                  \<and> (0 < answered_with_json sess ?U (requests_made (log s)) l
                       \<longrightarrow> fs ?s' ?P \<noteq> None))"
    using l(1) a b c e by (intro exI [of _ l] conjI impI) simp_all
  have second: "\<exists>before after. iterate_set h (map cc rows) = before @ X # after
               \<and> X \<notin> set before \<and> X \<notin> set after"
    if "X \<in> cc ` set rows"
    using that by (intro iterate_set_once) simp
  have third: "\<exists>t'. log t' = log t
                      @ concat (replicate k [Fetch ?P ?U, Sleep RETRY_WAIT])
                      @ [Fetch ?P ?U, Sleep d, Write ?P (Json data)]
                \<and> fs t' = (fs t)(?P \<mapsto> Json data)
                \<and> download_precinct m sess h dir d p s0
                    = for_each (download_contest m sess d) after t'"
    if v: "vbs p = [v]"
      and ret: "load_or_download sess (path_join BASE_DIR [''results'', dir, ppcc p @ ''.json''])
                  (urljoin [BASE_URL, ''results'', vb_url v @ ''.json'']) d s0
                = (Inr (Results rows), s1)"
      and split: "iterate_set h (map cc rows) = before @ X # after"
      and bef: "for_each (download_contest m sess d) before s1 = (Some (Inr ()), t)"
      and star: "CHR ''*'' \<notin> set X" and delay: "0 \<le> d" and absent: "fs t ?P = None"
      and fails: "\<forall>i < k. sess (requests_made (log t) + i) ?U = Response NotJson"
      and answer: "sess (requests_made (log t) + k) ?U = Response (Json data)"
      and fuel: "k < m"
  proof -
    have "\<exists>t'. download_contest m sess d X t = (Some (Inr ()), t')
            \<and> log t' = log t @ concat (replicate k [Fetch ?P ?U, Sleep RETRY_WAIT])
                          @ [Fetch ?P ?U, Sleep d, Write ?P (Json data)]
            \<and> fs t' = (fs t)(?P \<mapsto> Json data)"
      using star absent delay fails answer fuel by (rule download_contest_until_published)
    then obtain t' where t': "download_contest m sess d X t = (Some (Inr ()), t')"
      "log t' = log t @ concat (replicate k [Fetch ?P ?U, Sleep RETRY_WAIT])
                  @ [Fetch ?P ?U, Sleep d, Write ?P (Json data)]"
      "fs t' = (fs t)(?P \<mapsto> Json data)"
      by blast
    have "download_precinct m sess h dir d p s0
            = for_each (download_contest m sess d) (before @ X # after) s1"
      using v ret split by (simp add: download_precinct_def)
    also have "\<dots> = for_each (download_contest m sess d) after t'"
      using bef t'(1) by (simp add: for_each_append)
    finally show ?thesis using t'(2,3) by blast
  qed
  have fourth: "download_contest (Suc m0) sess d X t0 = (Some (Inr ()), emit (Load ?P) t0)"
    if "fs t0 ?P = Some (Json data0)"
    using that by (rule download_contest_cached)
  show ?thesis
    using first second third fourth by blast
qed

theorem contest_is_fetched_until_stored_witness:
  "CHR ''*'' \<notin> set ''X'' \<and> (0::real) \<le> 1/2
   \<and> (\<exists>l l1 c l2.
         log (snd (download_data 5 two_leaves as_added [] ''root.json'' (1/2) no_files))
           = log no_files @ l
       \<and> l = l1 @ Write (contest_path ''X'') c # l2
       \<and> (\<forall>u. Fetch (contest_path ''X'') u \<notin> set l2)
       \<and> 0 < answered_with_json two_leaves (contest_url ''X'') (requests_made (log no_files)) l
       \<and> answered_with_json two_leaves (contest_url ''X'') (requests_made (log no_files)) l \<le> 1
       \<and> fs (snd (download_data 5 two_leaves as_added [] ''root.json'' (1/2) no_files))
            (contest_path ''X'') \<noteq> None)
   \<and> fs contest_stored (contest_path ''X'') \<noteq> None
   \<and> (\<exists>l. log (snd (download_data 5 two_leaves as_added [] ''root.json'' (1/2) contest_stored))
             = log contest_stored @ l
          \<and> (\<forall>u. Fetch (contest_path ''X'') u \<notin> set l))
   \<and> ''X'' \<in> cc ` set [Row ''X'', Row ''X'']
   \<and> iterate_set as_added (map cc [Row ''X'', Row ''X'']) = [] @ ''X'' # []
   \<and> vbs (Precinct ''1'' [VB ''r1'']) = [VB ''r1'']
   \<and> load_or_download two_leaves
         (path_join BASE_DIR [''results'', ''A'', ppcc (Precinct ''1'' [VB ''r1'']) @ ''.json''])
         (urljoin [BASE_URL, ''results'', vb_url (VB ''r1'') @ ''.json'']) (1/2)
         first_leaf_reached
       = (Inr (Results [Row ''X'', Row ''X'']), first_return_resolved)
   \<and> for_each (download_contest 3 two_leaves (1/2)) [] first_return_resolved
       = (Some (Inr ()), first_return_resolved)
   \<and> fs first_return_resolved (contest_path ''X'') = None
   \<and> requests_made (log first_return_resolved) = 3
   \<and> two_leaves 3 (contest_url ''X'') = Response NotJson
   \<and> two_leaves 4 (contest_url ''X'') = Response (Json (Document ''x''))
   \<and> fst (download_precinct 3 two_leaves as_added ''A'' (1/2) (Precinct ''1'' [VB ''r1''])
             first_leaf_reached) = Some (Inr ())
   \<and> log (snd (download_precinct 3 two_leaves as_added ''A'' (1/2) (Precinct ''1'' [VB ''r1''])
                  first_leaf_reached))
       = log first_return_resolved
         @ [Fetch (contest_path ''X'') (contest_url ''X''), Sleep RETRY_WAIT,
            Fetch (contest_path ''X'') (contest_url ''X''), Sleep (1/2),
            Write (contest_path ''X'') (Json (Document ''x''))]
   \<and> fs (snd (download_precinct 3 two_leaves as_added ''A'' (1/2) (Precinct ''1'' [VB ''r1''])
                 first_leaf_reached))
       = (fs first_return_resolved)(contest_path ''X'' \<mapsto> Json (Document ''x''))
   \<and> fs second_return_resolved (contest_path ''X'') = Some (Json (Document ''x''))
   \<and> download_contest (Suc 2) two_leaves (1/2) ''X'' second_return_resolved
       = (Some (Inr ()), emit (Load (contest_path ''X'')) second_return_resolved)"
proof -
  let ?run = "snd (download_data 5 two_leaves as_added [] ''root.json'' (1/2) no_files)"
  let ?dp = "download_precinct 3 two_leaves as_added ''A'' (1/2) (Precinct ''1'' [VB ''r1''])
               first_leaf_reached"
  let ?l1 = "[Fetch ''data/results/info.json'' (urljoin [BASE_URL, ''regions'', ''root.json'']),
        Sleep (1/2),
        Write ''data/results/info.json''
          (Json (NodeInfo ''Region'' [Child ''A'' ''a'', Child ''B'' ''b''] [])),
        Fetch ''data/results/A/info.json'' (urljoin [BASE_URL, ''regions'', ''a.json'']),
        Sleep (1/2),
        Write ''data/results/A/info.json''
          (Json (NodeInfo ''Barangay'' [] [Precinct ''1'' [VB ''r1'']])),
        Fetch ''data/results/A/1.json'' (urljoin [BASE_URL, ''results'', ''r1.json'']),
        Sleep (1/2),
        Write ''data/results/A/1.json'' (Json (Results [Row ''X'', Row ''X''])),
        Fetch ''data/contests/X.json'' (contest_url ''X''),
        Sleep 1,
        Fetch ''data/contests/X.json'' (contest_url ''X''),
        Sleep (1/2)]"
  let ?l2 = "[Fetch ''data/results/B/info.json'' (urljoin [BASE_URL, ''regions'', ''b.json'']),
        Sleep (1/2),
        Write ''data/results/B/info.json''
          (Json (NodeInfo ''Barangay'' [] [Precinct ''2'' [VB ''r2'']])),
        Fetch ''data/results/B/2.json'' (urljoin [BASE_URL, ''results'', ''r2.json'']),
        Sleep (1/2),
        Write ''data/results/B/2.json'' (Json (Results [Row ''X''])),
        Load ''data/contests/X.json'']"
  note T = contest_is_fetched_until_stored
    [where n = 5 and sess = two_leaves and h = as_added and node_dir = "[]"
       and node_url = "''root.json''" and d = "1/2" and X = "''X''"
       and rows = "[Row ''X'', Row ''X'']" and p = "Precinct ''1'' [VB ''r1'']"
       and v = "VB ''r1''" and dir = "''A''" and ?s0.0 = first_leaf_reached
       and ?s1.0 = first_return_resolved and before = "[]" and after = "[]" and m = 3
       and t = first_return_resolved and k = 1 and data = "Document ''x''"
       and ?t0.0 = second_return_resolved and ?data0.0 = "Document ''x''" and ?m0.0 = 2]
  have path: "contest_path ''X'' = ''data/contests/X.json''"
    by code_simp
  have star: "CHR ''*'' \<notin> set ''X''" by simp
  have delay: "(0::real) \<le> 1/2" by simp
  have empty: "log no_files = []"
    by (simp add: no_files_def)
  have whole: "log ?run = ?l1 @ Write ''data/contests/X.json'' (Json (Document ''x'')) # ?l2"
    by code_simp
  have counted: "0 < answered_with_json two_leaves (contest_url ''X'') (requests_made [])
                       (?l1 @ Write (contest_path ''X'') (Json (Document ''x'')) # ?l2)"
    by code_simp
  have stored: "fs contest_stored (contest_path ''X'') = Some (Json (Document ''x''))"
    by (simp add: path contest_stored_def)
  have first: "\<exists>l l1 c l2. log ?run = log no_files @ l
       \<and> l = l1 @ Write (contest_path ''X'') c # l2
       \<and> (\<forall>u. Fetch (contest_path ''X'') u \<notin> set l2)
       \<and> 0 < answered_with_json two_leaves (contest_url ''X'') (requests_made (log no_files)) l
       \<and> answered_with_json two_leaves (contest_url ''X'') (requests_made (log no_files)) l \<le> 1
       \<and> fs ?run (contest_path ''X'') \<noteq> None"
  proof -
    from T [where s = no_files, THEN conjunct1]
    obtain l where
      l: "log ?run = log no_files @ l"
         "\<forall>l1 c l2. l = l1 @ Write (contest_path ''X'') c # l2
              \<longrightarrow> (\<forall>u. Fetch (contest_path ''X'') u \<notin> set l2)"
         "CHR ''*'' \<notin> set ''X'' \<and> (0::real) \<le> 1/2
            \<longrightarrow> answered_with_json two_leaves (contest_url ''X'') (requests_made (log no_files)) l
                  \<le> 1
                \<and> (0 < answered_with_json two_leaves (contest_url ''X'')
                          (requests_made (log no_files)) l
                     \<longrightarrow> fs ?run (contest_path ''X'') \<noteq> None)"
      by (elim exE conjE)
    from l(1) whole empty
    have leq: "l = ?l1 @ Write (contest_path ''X'') (Json (Document ''x'')) # ?l2"
      by (simp only: path append_Nil same_append_eq)
    have after: "Fetch (contest_path ''X'') u \<notin> set ?l2" for u
      by (rule l(2) [rule_format, OF leq])
    have pos: "0 < answered_with_json two_leaves (contest_url ''X'')
                      (requests_made (log no_files)) l"
      using counted by (simp only: leq empty)
    from l(3) star delay
    have le: "answered_with_json two_leaves (contest_url ''X'') (requests_made (log no_files)) l
                \<le> 1"
      and there: "0 < answered_with_json two_leaves (contest_url ''X'')
                          (requests_made (log no_files)) l
                     \<longrightarrow> fs ?run (contest_path ''X'') \<noteq> None"
      by blast+
    from there pos have "fs ?run (contest_path ''X'') \<noteq> None" by (rule mp)
    with l(1) leq after pos le show ?thesis by blast
  qed
  have second: "\<exists>l. log (snd (download_data 5 two_leaves as_added [] ''root.json'' (1/2)
                                  contest_stored))
             = log contest_stored @ l
          \<and> (\<forall>u. Fetch (contest_path ''X'') u \<notin> set l)"
  proof -
    from T [where s = contest_stored, THEN conjunct1]
    obtain l where
      l: "log (snd (download_data 5 two_leaves as_added [] ''root.json'' (1/2) contest_stored))
            = log contest_stored @ l"
         "fs contest_stored (contest_path ''X'') \<noteq> None
            \<longrightarrow> (\<forall>u. Fetch (contest_path ''X'') u \<notin> set l)"
      by (elim exE conjE)
    from l(2) stored have "\<forall>u. Fetch (contest_path ''X'') u \<notin> set l" by simp
    with l(1) show ?thesis by blast
  qed
  have named: "''X'' \<in> cc ` set [Row ''X'', Row ''X'']" by simp
  have order: "iterate_set as_added (map cc [Row ''X'', Row ''X'']) = [] @ ''X'' # []"
    by code_simp
  have v: "vbs (Precinct ''1'' [VB ''r1'']) = [VB ''r1'']" by simp
  have "fst (load_or_download two_leaves
         (path_join BASE_DIR [''results'', ''A'', ppcc (Precinct ''1'' [VB ''r1'']) @ ''.json''])
         (urljoin [BASE_URL, ''results'', vb_url (VB ''r1'') @ ''.json'']) (1/2)
         first_leaf_reached) = Inr (Results [Row ''X'', Row ''X''])"
    by code_simp
  moreover have "path_join BASE_DIR
                   [''results'', ''A'', ppcc (Precinct ''1'' [VB ''r1'']) @ ''.json'']
                   = ''data/results/A/1.json''"
    by code_simp
  ultimately have ret: "load_or_download two_leaves
         (path_join BASE_DIR [''results'', ''A'', ppcc (Precinct ''1'' [VB ''r1'']) @ ''.json''])
         (urljoin [BASE_URL, ''results'', vb_url (VB ''r1'') @ ''.json'']) (1/2)
         first_leaf_reached
       = (Inr (Results [Row ''X'', Row ''X'']), first_return_resolved)"
    by (simp add: prod_eq_iff first_return_resolved_def)
  have bef: "for_each (download_contest 3 two_leaves (1/2)) [] first_return_resolved
       = (Some (Inr ()), first_return_resolved)"
    by simp
  have absent: "fs first_return_resolved (contest_path ''X'') = None"
    by code_simp
  have req: "requests_made (log first_return_resolved) = 3"
    by code_simp
  have r3: "two_leaves 3 (contest_url ''X'') = Response NotJson"
    by code_simp
  have r4: "two_leaves 4 (contest_url ''X'') = Response (Json (Document ''x''))"
    by code_simp
  have fails: "\<forall>i < 1. two_leaves (requests_made (log first_return_resolved) + i)
                         (contest_url ''X'') = Response NotJson"
    using r3 by (simp add: req)
  have answer: "two_leaves (requests_made (log first_return_resolved) + 1) (contest_url ''X'')
                  = Response (Json (Document ''x''))"
    using r4 by (simp add: req)
  have fuel: "(1::nat) < 3" by simp
  have "\<exists>t'. log t' = log first_return_resolved
                @ concat (replicate 1 [Fetch (contest_path ''X'') (contest_url ''X''),
                                       Sleep RETRY_WAIT])
                @ [Fetch (contest_path ''X'') (contest_url ''X''), Sleep (1/2),
                   Write (contest_path ''X'') (Json (Document ''x''))]
            \<and> fs t' = (fs first_return_resolved)(contest_path ''X'' \<mapsto> Json (Document ''x''))
            \<and> ?dp = for_each (download_contest 3 two_leaves (1/2)) [] t'"
    using T [where s = no_files, THEN conjunct2, THEN conjunct2, THEN conjunct1]
      v ret order bef star delay absent fails answer fuel
    by (elim impE) (intro conjI, assumption+)
  then obtain t' where t':
    "log t' = log first_return_resolved
                @ concat (replicate 1 [Fetch (contest_path ''X'') (contest_url ''X''),
                                       Sleep RETRY_WAIT])
                @ [Fetch (contest_path ''X'') (contest_url ''X''), Sleep (1/2),
                   Write (contest_path ''X'') (Json (Document ''x''))]"
    "fs t' = (fs first_return_resolved)(contest_path ''X'' \<mapsto> Json (Document ''x''))"
    "?dp = for_each (download_contest 3 two_leaves (1/2)) [] t'"
    by (elim exE conjE)
  from t'(3) have dp: "?dp = (Some (Inr ()), t')" by simp
  have third: "fst ?dp = Some (Inr ())"
    and fourth: "log (snd ?dp) = log first_return_resolved
         @ [Fetch (contest_path ''X'') (contest_url ''X''), Sleep RETRY_WAIT,
            Fetch (contest_path ''X'') (contest_url ''X''), Sleep (1/2),
            Write (contest_path ''X'') (Json (Document ''x''))]"
    and fifth: "fs (snd ?dp)
                  = (fs first_return_resolved)(contest_path ''X'' \<mapsto> Json (Document ''x''))"
    using t'(1,2) by (simp_all only: dp fst_conv snd_conv) simp_all
  have there: "fs second_return_resolved (contest_path ''X'') = Some (Json (Document ''x''))"
    by code_simp
  have sixth: "download_contest (Suc 2) two_leaves (1/2) ''X'' second_return_resolved
       = (Some (Inr ()), emit (Load (contest_path ''X'')) second_return_resolved)"
    using T [where s = no_files, THEN conjunct2, THEN conjunct2, THEN conjunct2] there
    by (rule mp)
  from stored have stored': "fs contest_stored (contest_path ''X'') \<noteq> None" by simp
  show ?thesis
    using star delay first stored' second named order v ret bef absent req r3 r4
      third fourth fifth there sixth
    by (intro conjI)
qed

text \<open>
  C8, as stated, fails on \<open>two_leaves\<close>: contest \<open>X\<close> is requested twice, because the
  first response does not parse and the reference is retried. The order in which the
  sets are iterated plays no part. (A contest whose identifier holds a \<^verbatim>\<open>*\<close> is
  requested by every leaf that names it, because the file looked for is not the file
  written: that is the defect shown under C1, here on \<open>starred_contest\<close>.)
\<close>

theorem late_contest_is_fetched_twice:
  "\<forall>h.
     fst (main ''data'' (1/2) ''INFO'' 5 two_leaves h no_files) = Some (Inr ())
   \<and> log (snd (main ''data'' (1/2) ''INFO'' 5 two_leaves h no_files))
     = [Fetch ''data/results/info.json'' (urljoin [BASE_URL, ''regions'', ''root.json'']),
        Sleep (1/2),
        Write ''data/results/info.json''
          (Json (NodeInfo ''Region'' [Child ''A'' ''a'', Child ''B'' ''b''] [])),
        Fetch ''data/results/A/info.json'' (urljoin [BASE_URL, ''regions'', ''a.json'']),
        Sleep (1/2),
        Write ''data/results/A/info.json''
          (Json (NodeInfo ''Barangay'' [] [Precinct ''1'' [VB ''r1'']])),
        Fetch ''data/results/A/1.json'' (urljoin [BASE_URL, ''results'', ''r1.json'']),
        Sleep (1/2),
        Write ''data/results/A/1.json'' (Json (Results [Row ''X'', Row ''X''])),
        Fetch ''data/contests/X.json'' (contest_url ''X''),
        Sleep 1,
        Fetch ''data/contests/X.json'' (contest_url ''X''),
        Sleep (1/2),
        Write ''data/contests/X.json'' (Json (Document ''x'')),
        Fetch ''data/results/B/info.json'' (urljoin [BASE_URL, ''regions'', ''b.json'']),
        Sleep (1/2),
        Write ''data/results/B/info.json''
          (Json (NodeInfo ''Barangay'' [] [Precinct ''2'' [VB ''r2'']])),
        Fetch ''data/results/B/2.json'' (urljoin [BASE_URL, ''results'', ''r2.json'']),
        Sleep (1/2),
        Write ''data/results/B/2.json'' (Json (Results [Row ''X''])),
        Load ''data/contests/X.json'']"
  by (intro allI) code_simp

lemma starred_contest_is_fetched_by_every_leaf:
  "log (snd (main ''data'' (1/2) ''INFO'' 5 starred_contest h no_files))
     = [Fetch ''data/results/info.json'' (urljoin [BASE_URL, ''regions'', ''root.json'']),
        Sleep (1/2),
        Write ''data/results/info.json''
          (Json (NodeInfo ''Region'' [Child ''A'' ''a'', Child ''B'' ''b''] [])),
        Fetch ''data/results/A/info.json'' (urljoin [BASE_URL, ''regions'', ''a.json'']),
        Sleep (1/2),
        Write ''data/results/A/info.json''
          (Json (NodeInfo ''Barangay'' [] [Precinct ''1'' [VB ''r1'']])),
        Fetch ''data/results/A/1.json'' (urljoin [BASE_URL, ''results'', ''r1.json'']),
        Sleep (1/2),
        Write ''data/results/A/1.json'' (Json (Results [Row ''Y*''])),
        Fetch ''data/contests/Y*.json'' (contest_url ''Y*''),
        Sleep (1/2),
        Write ''data/contests/Y_.json'' (Json (Document ''y'')),
        Fetch ''data/results/B/info.json'' (urljoin [BASE_URL, ''regions'', ''b.json'']),
        Sleep (1/2),
        Write ''data/results/B/info.json''
          (Json (NodeInfo ''Barangay'' [] [Precinct ''2'' [VB ''r2'']])),
        Fetch ''data/results/B/2.json'' (urljoin [BASE_URL, ''results'', ''r2.json'']),
        Sleep (1/2),
        Write ''data/results/B/2.json'' (Json (Results [Row ''Y*''])),
        Fetch ''data/contests/Y*.json'' (contest_url ''Y*''),
        Sleep (1/2),
        Write ''data/contests/Y_.json'' (Json (Document ''y''))]"
  by code_simp

section \<open>The options of \<^verbatim>\<open>main\<close>\<close>

text \<open>The value of \<^verbatim>\<open>--base-dir\<close> has no effect on the run.\<close>

lemma main_ignores_base_dir:
  "main base_dir download_delay log_level n sess h s
     = main ''data'' download_delay log_level n sess h s"
  by (simp add: main_def)

text \<open>
  C9, evaluated where the code departs from it. The claim has every file stored under the
  directory given with \<^verbatim>\<open>--base-dir\<close>. With \<^verbatim>\<open>--base-dir out\<close> the one file of the run
  is written to \<^verbatim>\<open>data/results/info.json\<close>, and nothing is stored under \<^verbatim>\<open>out\<close>.
\<close>

theorem base_dir_option_is_ignored:
  "log (snd (main ''out'' (1/2) ''INFO'' 2 one_node h no_files))
     = [Fetch ''data/results/info.json'' (urljoin [BASE_URL, ''regions'', ''root.json'']),
        Sleep (1/2),
        Write ''data/results/info.json'' (Json (NodeInfo ''Region'' [] []))]
   \<and> fs (snd (main ''out'' (1/2) ''INFO'' 2 one_node h no_files)) ''out/results/info.json''
       = None
   \<and> fs (snd (main ''out'' (1/2) ''INFO'' 2 one_node h no_files)) ''data/results/info.json''
       = Some (Json (NodeInfo ''Region'' [] []))"
  by code_simp

end
